theory Spec2Isabelle
  imports Main "HOL-Library.Word" "HOL-Library.AList"
begin

section \<open>Machine types and reserved origin values\<close>

text \<open>
  The engine of \<^verbatim>\<open>routingtables.c\<close> works on \<^verbatim>\<open>uint32_t\<close> timestamps, AS numbers
  and counters; they are 32-bit words here, so that \<open>+\<close> and \<open>-\<close> wrap as in C.
  Peer ids are the 16-bit \<^verbatim>\<open>bgpstream_peer_id_t\<close>.
\<close>

type_synonym u32 = "32 word"
type_synonym bgpstream_peer_id_t = "16 word"

text \<open>
  \<^verbatim>\<open>ROUTINGTABLES_RESERVED_ASN_START\<close> is \<^verbatim>\<open>BGPWATCHER_VIEW_ASN_NOEXPORT_START\<close>, a
  macro of a header that is not part of the sources at hand. Every function that needs
  it takes it as its first argument \<open>B\<close>.
\<close>

definition ROUTINGTABLES_LOCAL_ORIGIN_ASN :: "u32 \<Rightarrow> u32" where
  "ROUTINGTABLES_LOCAL_ORIGIN_ASN B = B + 0"

definition ROUTINGTABLES_CONFSET_ORIGIN_ASN :: "u32 \<Rightarrow> u32" where
  "ROUTINGTABLES_CONFSET_ORIGIN_ASN B = B + 1"

definition ROUTINGTABLES_DOWN_ORIGIN_ASN :: "u32 \<Rightarrow> u32" where
  "ROUTINGTABLES_DOWN_ORIGIN_ASN B = B + 2"

definition ROUTINGTABLES_RIB_BACKLOG_TIME :: u32 where
  "ROUTINGTABLES_RIB_BACKLOG_TIME = 60"

definition ROUTINGTABLES_MAX_INACTIVE_TIME :: u32 where
  "ROUTINGTABLES_MAX_INACTIVE_TIME = 3600"

section \<open>AS paths and origin extraction\<close>

text \<open>
  An AS path is the sequence of its segments. A segment is a single AS number or one of
  the three collective kinds (set, confederation set, confederation sequence).
  \<^verbatim>\<open>bgpstream_as_path_get_origin_seg\<close> yields the last segment, \<^verbatim>\<open>NULL\<close> on the empty path.
\<close>

datatype bgpstream_as_path_seg_t =
    SEG_ASN u32
  | SEG_SET "u32 list"
  | SEG_CONFED_SET "u32 list"
  | SEG_CONFED_SEQ "u32 list"

type_synonym bgpstream_as_path_t = "bgpstream_as_path_seg_t list"

fun bgpstream_as_path_get_origin_seg :: "bgpstream_as_path_t \<Rightarrow> bgpstream_as_path_seg_t option" where
  "bgpstream_as_path_get_origin_seg [] = None"
| "bgpstream_as_path_get_origin_seg [s] = Some s"
| "bgpstream_as_path_get_origin_seg (s # t # rest) = bgpstream_as_path_get_origin_seg (t # rest)"

definition get_origin_asn :: "u32 \<Rightarrow> bgpstream_as_path_t \<Rightarrow> u32" where
  "get_origin_asn B aspath =
     (let asn = (case bgpstream_as_path_get_origin_seg aspath of
                   None \<Rightarrow> 0
                 | Some (SEG_ASN a) \<Rightarrow> a
                 | Some _ \<Rightarrow> ROUTINGTABLES_CONFSET_ORIGIN_ASN B)
      in if asn = 0 then ROUTINGTABLES_LOCAL_ORIGIN_ASN B else asn)"

lemma origin_seg_snoc [simp]: "bgpstream_as_path_get_origin_seg (segs @ [s]) = Some s"
  by (induction segs rule: bgpstream_as_path_get_origin_seg.induct) simp_all

section \<open>Prefixes, elements and records\<close>

datatype bgpstream_addr_version_t =
    BGPSTREAM_ADDR_VERSION_UNKNOWN
  | BGPSTREAM_ADDR_VERSION_IPV4
  | BGPSTREAM_ADDR_VERSION_IPV6

text \<open>
  A prefix is its address family, the bytes of its address in network order, and its mask
  length. An address is a family and its bytes.
\<close>

record bgpstream_pfx_t =
  pfx_version :: bgpstream_addr_version_t
  pfx_addr :: "8 word list"
  mask_len :: nat

type_synonym bgpstream_ip_addr_t = "bgpstream_addr_version_t \<times> 8 word list"

datatype bgpstream_elem_type_t =
    BGPSTREAM_ELEM_TYPE_UNKNOWN
  | BGPSTREAM_ELEM_TYPE_RIB
  | BGPSTREAM_ELEM_TYPE_ANNOUNCEMENT
  | BGPSTREAM_ELEM_TYPE_WITHDRAWAL
  | BGPSTREAM_ELEM_TYPE_PEERSTATE

datatype bgpstream_elem_peerstate_t =
    BGPSTREAM_ELEM_PEERSTATE_UNKNOWN
  | BGPSTREAM_ELEM_PEERSTATE_IDLE
  | BGPSTREAM_ELEM_PEERSTATE_CONNECT
  | BGPSTREAM_ELEM_PEERSTATE_ACTIVE
  | BGPSTREAM_ELEM_PEERSTATE_OPENSENT
  | BGPSTREAM_ELEM_PEERSTATE_OPENCONFIRM
  | BGPSTREAM_ELEM_PEERSTATE_ESTABLISHED

record bgpstream_elem_t =
  elem_type :: bgpstream_elem_type_t
  peer_address :: bgpstream_ip_addr_t
  peer_asnumber :: u32
  elem_prefix :: bgpstream_pfx_t
  aspath :: bgpstream_as_path_t
  new_state :: bgpstream_elem_peerstate_t

datatype bgpstream_record_status_t =
    BGPSTREAM_RECORD_STATUS_VALID_RECORD
  | BGPSTREAM_RECORD_STATUS_FILTERED_SOURCE
  | BGPSTREAM_RECORD_STATUS_EMPTY_SOURCE
  | BGPSTREAM_RECORD_STATUS_CORRUPTED_SOURCE
  | BGPSTREAM_RECORD_STATUS_CORRUPTED_RECORD

datatype bgpstream_record_dump_type_t = BGPSTREAM_UPDATE | BGPSTREAM_RIB

datatype bgpstream_dump_position_t =
  BGPSTREAM_DUMP_START | BGPSTREAM_DUMP_MIDDLE | BGPSTREAM_DUMP_END

text \<open>
  A record carries its attributes and the finite sequence of its elements, which
  \<^verbatim>\<open>bgpstream_record_get_next_elem\<close> hands out one by one.
\<close>

record bgpstream_record_t =
  status :: bgpstream_record_status_t
  dump_type :: bgpstream_record_dump_type_t
  dump_pos :: bgpstream_dump_position_t
  dump_time :: u32
  record_time :: u32
  dump_project :: string
  dump_collector :: string
  elems :: "bgpstream_elem_t list"

section \<open>The view and the engine state\<close>

text \<open>
  The view holds valid peers and valid pfx-peers only; each is active or inactive.
\<close>

datatype bgpwatcher_view_field_state_t =
  BGPWATCHER_VIEW_FIELD_INACTIVE | BGPWATCHER_VIEW_FIELD_ACTIVE

text \<open>
  A peer of the view: its active flag (\<open>peer_state\<close>) and the fields of the
  \<^verbatim>\<open>perpeer_info_t\<close> that hangs off it as user data. The strings used to name metrics
  are left out.
\<close>

record perpeer_info_t =
  peer_state :: bgpwatcher_view_field_state_t
  bgp_fsm_state :: bgpstream_elem_peerstate_t
  bgp_time_ref_rib_start :: u32
  bgp_time_ref_rib_end :: u32
  bgp_time_uc_rib_start :: u32
  bgp_time_uc_rib_end :: u32
  last_ts :: u32
  rib_positive_mismatches_cnt :: u32
  rib_negative_mismatches_cnt :: u32
  pfx_announcements_cnt :: u32
  pfx_withdrawals_cnt :: u32
  rib_messages_cnt :: u32
  state_messages_cnt :: u32
  announcing_ases :: "u32 set"
  announced_v4_pfxs :: "bgpstream_pfx_t set"
  withdrawn_v4_pfxs :: "bgpstream_pfx_t set"
  announced_v6_pfxs :: "bgpstream_pfx_t set"
  withdrawn_v6_pfxs :: "bgpstream_pfx_t set"

text \<open>
  A pfx-peer (the cell of one prefix and one peer): its active flag, the origin AS number
  the view stores for it, and the fields of its \<^verbatim>\<open>perpfx_perpeer_info_t\<close>.
\<close>

record perpfx_perpeer_info_t =
  pfx_peer_state :: bgpwatcher_view_field_state_t
  orig_asn :: u32
  bgp_time_last_ts :: u32
  bgp_time_uc_delta_ts :: u32
  uc_origin_asn :: u32
  announcements :: u32
  withdrawals :: u32

datatype collector_state_t =
    ROUTINGTABLES_COLLECTOR_STATE_UNKNOWN
  | ROUTINGTABLES_COLLECTOR_STATE_DOWN
  | ROUTINGTABLES_COLLECTOR_STATE_UP

record collector_t =
  collector_peerids :: "bgpstream_peer_id_t set"
  bgp_time_last :: u32
  wall_time_last :: u32
  bgp_time_ref_rib_dump_time :: u32
  bgp_time_ref_rib_start_time :: u32
  bgp_time_uc_rib_dump_time :: u32
  bgp_time_uc_rib_start_time :: u32
  state :: collector_state_t
  active_peers_cnt :: u32
  valid_record_cnt :: u32
  corrupted_record_cnt :: u32
  empty_record_cnt :: u32
  publish_flag :: bool

type_synonym peer_sig = "string \<times> bgpstream_ip_addr_t \<times> u32"
type_synonym peer_table = "(bgpstream_peer_id_t \<times> perpeer_info_t) list"
type_synonym pfx_peer_key = "bgpstream_pfx_t \<times> bgpstream_peer_id_t"
type_synonym pfx_peer_table = "(pfx_peer_key \<times> perpfx_perpeer_info_t) list"

text \<open>
  The engine: the peer-signature registry, the two tables of the view in the order its
  iterators walk them, and the collectors by name.
\<close>

record routingtables_t =
  peersigns :: "(peer_sig \<times> bgpstream_peer_id_t) list"
  view_peers :: peer_table
  view_pfx_peers :: pfx_peer_table
  collectors :: "string \<rightharpoonup> collector_t"

text \<open>An assertion of the source that fails aborts the process.\<close>

datatype abort = ASSERTION_FAILED

definition set_peer :: "bgpstream_peer_id_t \<Rightarrow> perpeer_info_t \<Rightarrow> routingtables_t \<Rightarrow> routingtables_t" where
  "set_peer peer_id p rt = rt\<lparr>view_peers := AList.update peer_id p (view_peers rt)\<rparr>"

definition set_pfx_peer :: "pfx_peer_key \<Rightarrow> perpfx_perpeer_info_t \<Rightarrow> routingtables_t \<Rightarrow> routingtables_t" where
  "set_pfx_peer k pp rt = rt\<lparr>view_pfx_peers := AList.update k pp (view_pfx_peers rt)\<rparr>"

text \<open>
  \<^verbatim>\<open>bgpwatcher_view_iter_add_pfx_peer\<close> followed by \<^verbatim>\<open>perpfx_perpeer_info_create\<close>: a new
  pfx-peer has the origin it is created with, is inactive, and has no live and no
  under-construction data.
\<close>

definition perpfx_perpeer_info_create :: "u32 \<Rightarrow> u32 \<Rightarrow> perpfx_perpeer_info_t" where
  "perpfx_perpeer_info_create B asn =
     \<lparr>pfx_peer_state = BGPWATCHER_VIEW_FIELD_INACTIVE, orig_asn = asn,
      bgp_time_last_ts = 0, bgp_time_uc_delta_ts = 0,
      uc_origin_asn = ROUTINGTABLES_DOWN_ORIGIN_ASN B,
      announcements = 0, withdrawals = 0\<rparr>"

text \<open>A new peer is inactive; its FSM state is unknown and all its times are 0.\<close>

definition perpeer_info_create :: perpeer_info_t where
  "perpeer_info_create =
     \<lparr>peer_state = BGPWATCHER_VIEW_FIELD_INACTIVE,
      bgp_fsm_state = BGPSTREAM_ELEM_PEERSTATE_UNKNOWN,
      bgp_time_ref_rib_start = 0, bgp_time_ref_rib_end = 0,
      bgp_time_uc_rib_start = 0, bgp_time_uc_rib_end = 0, last_ts = 0,
      rib_positive_mismatches_cnt = 0, rib_negative_mismatches_cnt = 0,
      pfx_announcements_cnt = 0, pfx_withdrawals_cnt = 0,
      rib_messages_cnt = 0, state_messages_cnt = 0,
      announcing_ases = {}, announced_v4_pfxs = {}, withdrawn_v4_pfxs = {},
      announced_v6_pfxs = {}, withdrawn_v6_pfxs = {}\<rparr>"

definition new_collector :: collector_t where
  "new_collector =
     \<lparr>collector_peerids = {}, bgp_time_last = 0, wall_time_last = 0,
      bgp_time_ref_rib_dump_time = 0, bgp_time_ref_rib_start_time = 0,
      bgp_time_uc_rib_dump_time = 0, bgp_time_uc_rib_start_time = 0,
      state = ROUTINGTABLES_COLLECTOR_STATE_UNKNOWN, active_peers_cnt = 0,
      valid_record_cnt = 0, corrupted_record_cnt = 0, empty_record_cnt = 0,
      publish_flag = False\<rparr>"

definition get_collector_data :: "routingtables_t \<Rightarrow> string \<Rightarrow> routingtables_t \<times> collector_t" where
  "get_collector_data rt collector =
     (case collectors rt collector of
        Some c \<Rightarrow> (rt, c)
      | None \<Rightarrow> (rt\<lparr>collectors := (collectors rt)(collector \<mapsto> new_collector)\<rparr>, new_collector))"

section \<open>Stopping the under-construction process and resetting a peer\<close>

definition stop_uc_pfx_peer ::
  "u32 \<Rightarrow> collector_t \<Rightarrow> peer_table \<Rightarrow> pfx_peer_key \<times> perpfx_perpeer_info_t
     \<Rightarrow> pfx_peer_key \<times> perpfx_perpeer_info_t" where
  "stop_uc_pfx_peer B c ps e =
     (if snd (fst e) \<in> collector_peerids c then
        (let pp = (snd e)\<lparr>bgp_time_uc_delta_ts := 0,
                           uc_origin_asn := ROUTINGTABLES_DOWN_ORIGIN_ASN B\<rparr>
         in if map_option peer_state (map_of ps (snd (fst e))) = Some BGPWATCHER_VIEW_FIELD_INACTIVE
            then (fst e, pp\<lparr>orig_asn := ROUTINGTABLES_DOWN_ORIGIN_ASN B, bgp_time_last_ts := 0\<rparr>)
            else (fst e, pp))
      else e)"

definition stop_uc_peer ::
  "collector_t \<Rightarrow> bgpstream_peer_id_t \<times> perpeer_info_t \<Rightarrow> bgpstream_peer_id_t \<times> perpeer_info_t" where
  "stop_uc_peer c e =
     (if fst e \<in> collector_peerids c
      then (fst e, (snd e)\<lparr>bgp_time_uc_rib_start := 0, bgp_time_uc_rib_end := 0\<rparr>)
      else e)"

definition stop_uc_process :: "u32 \<Rightarrow> routingtables_t \<Rightarrow> collector_t \<Rightarrow> routingtables_t \<times> collector_t" where
  "stop_uc_process B rt c =
     (rt\<lparr>view_pfx_peers := map (stop_uc_pfx_peer B c (view_peers rt)) (view_pfx_peers rt),
         view_peers := map (stop_uc_peer c) (view_peers rt)\<rparr>,
      c\<lparr>bgp_time_uc_rib_dump_time := 0, bgp_time_uc_rib_start_time := 0\<rparr>)"

definition reset_pfx_peer ::
  "u32 \<Rightarrow> bgpstream_peer_id_t \<Rightarrow> bool \<Rightarrow> pfx_peer_key \<times> perpfx_perpeer_info_t
     \<Rightarrow> pfx_peer_key \<times> perpfx_perpeer_info_t" where
  "reset_pfx_peer B peer_id reset_uc e =
     (if snd (fst e) = peer_id then
        (let pp = (snd e)\<lparr>orig_asn := ROUTINGTABLES_DOWN_ORIGIN_ASN B, bgp_time_last_ts := 0\<rparr>;
             pp' = (if reset_uc
                    then pp\<lparr>bgp_time_uc_delta_ts := 0,
                            uc_origin_asn := ROUTINGTABLES_DOWN_ORIGIN_ASN B\<rparr>
                    else pp)
         in (fst e, pp'\<lparr>pfx_peer_state := BGPWATCHER_VIEW_FIELD_INACTIVE\<rparr>))
      else e)"

definition reset_peerpfxdata :: "u32 \<Rightarrow> routingtables_t \<Rightarrow> bgpstream_peer_id_t \<Rightarrow> bool \<Rightarrow> routingtables_t" where
  "reset_peerpfxdata B rt peer_id reset_uc =
     (if map_of (view_peers rt) peer_id \<noteq> None
      then rt\<lparr>view_pfx_peers := map (reset_pfx_peer B peer_id reset_uc) (view_pfx_peers rt)\<rparr>
      else rt)"

section \<open>The end of a RIB\<close>

text \<open>The body of the first loop of \<^verbatim>\<open>end_of_valid_rib\<close>, for a pfx-peer of a peer of the
  collector that took part in the RIB: the backlog test, then promotion or not.\<close>

definition uc_more_recent :: "perpeer_info_t \<Rightarrow> perpfx_perpeer_info_t \<Rightarrow> bool" where
  "uc_more_recent p pp \<longleftrightarrow>
     bgp_time_uc_delta_ts pp + bgp_time_uc_rib_start p > bgp_time_last_ts pp \<and>
     \<not> (bgp_time_last_ts pp > bgp_time_uc_rib_start p - ROUTINGTABLES_RIB_BACKLOG_TIME)"

definition rib_activate_peer :: "perpeer_info_t \<Rightarrow> perpeer_info_t" where
  "rib_activate_peer p =
     p\<lparr>peer_state := BGPWATCHER_VIEW_FIELD_ACTIVE,
       bgp_fsm_state := BGPSTREAM_ELEM_PEERSTATE_ESTABLISHED,
       bgp_time_ref_rib_start := bgp_time_uc_rib_start p,
       bgp_time_ref_rib_end := bgp_time_uc_rib_end p\<rparr>"

definition end_of_valid_rib_pfx_peer ::
  "u32 \<Rightarrow> perpeer_info_t \<Rightarrow> perpfx_perpeer_info_t \<Rightarrow> perpeer_info_t \<times> perpfx_perpeer_info_t" where
  "end_of_valid_rib_pfx_peer B p pp =
     (let (p', pp') =
        (if uc_more_recent p pp then
           (if uc_origin_asn pp \<noteq> ROUTINGTABLES_DOWN_ORIGIN_ASN B then
              (rib_activate_peer
                 (if bgp_time_last_ts pp \<noteq> 0 \<and> orig_asn pp = ROUTINGTABLES_DOWN_ORIGIN_ASN B
                  then p\<lparr>rib_negative_mismatches_cnt := rib_negative_mismatches_cnt p + 1\<rparr>
                  else p),
               pp\<lparr>bgp_time_last_ts := bgp_time_uc_delta_ts pp + bgp_time_uc_rib_start p,
                  orig_asn := uc_origin_asn pp,
                  pfx_peer_state := BGPWATCHER_VIEW_FIELD_ACTIVE\<rparr>)
            else
              ((if pfx_peer_state pp = BGPWATCHER_VIEW_FIELD_ACTIVE
                then p\<lparr>rib_positive_mismatches_cnt := rib_positive_mismatches_cnt p + 1\<rparr>
                else p),
               pp\<lparr>bgp_time_last_ts := 0,
                  orig_asn := ROUTINGTABLES_DOWN_ORIGIN_ASN B,
                  pfx_peer_state := BGPWATCHER_VIEW_FIELD_INACTIVE\<rparr>))
         else
           (if orig_asn pp \<noteq> ROUTINGTABLES_DOWN_ORIGIN_ASN B
            then (rib_activate_peer p, pp\<lparr>pfx_peer_state := BGPWATCHER_VIEW_FIELD_ACTIVE\<rparr>)
            else (p, pp)))
      in (p', pp'\<lparr>bgp_time_uc_delta_ts := 0, uc_origin_asn := ROUTINGTABLES_DOWN_ORIGIN_ASN B\<rparr>))"

text \<open>
  The first loop walks the pfx-peers; each step reads the peer of the pfx-peer at hand
  and may write it. A pfx-peer whose peer the view does not hold cannot occur and is
  left as it is.
\<close>

fun end_of_valid_rib_pfx_peers ::
  "u32 \<Rightarrow> collector_t \<Rightarrow> peer_table \<Rightarrow> pfx_peer_table \<Rightarrow> peer_table \<times> pfx_peer_table" where
  "end_of_valid_rib_pfx_peers B c ps [] = (ps, [])"
| "end_of_valid_rib_pfx_peers B c ps (e # rest) =
     (case map_of ps (snd (fst e)) of
        None \<Rightarrow>
          (let (ps', rest') = end_of_valid_rib_pfx_peers B c ps rest in (ps', e # rest'))
      | Some p \<Rightarrow>
          if snd (fst e) \<in> collector_peerids c \<and> bgp_time_uc_rib_start p \<noteq> 0 then
            (let (p', pp') = end_of_valid_rib_pfx_peer B p (snd e);
                 (ps', rest') =
                    end_of_valid_rib_pfx_peers B c (AList.update (snd (fst e)) p' ps) rest
             in (ps', (fst e, pp') # rest'))
          else
            (let (ps', rest') = end_of_valid_rib_pfx_peers B c ps rest in (ps', e # rest')))"

text \<open>
  The second loop walks the peers. A peer of the collector that got no RIB row and has
  been silent for more than \<^verbatim>\<open>ROUTINGTABLES_MAX_INACTIVE_TIME\<close> goes down when it claims to
  be established; any other peer of the collector has its under-construction window
  cleared.
\<close>

fun end_of_valid_rib_peers ::
  "u32 \<Rightarrow> collector_t \<Rightarrow> peer_table \<Rightarrow> pfx_peer_table \<Rightarrow> peer_table \<times> pfx_peer_table" where
  "end_of_valid_rib_peers B c [] cells = ([], cells)"
| "end_of_valid_rib_peers B c (e # rest) cells =
     (if fst e \<in> collector_peerids c then
        (if bgp_time_uc_rib_start (snd e) = 0 \<and>
            last_ts (snd e) < bgp_time_last c - ROUTINGTABLES_MAX_INACTIVE_TIME then
           (if bgp_fsm_state (snd e) = BGPSTREAM_ELEM_PEERSTATE_ESTABLISHED then
              (let (rest', cells') =
                     end_of_valid_rib_peers B c rest (map (reset_pfx_peer B (fst e) False) cells)
               in ((fst e, (snd e)\<lparr>bgp_fsm_state := BGPSTREAM_ELEM_PEERSTATE_UNKNOWN,
                                    peer_state := BGPWATCHER_VIEW_FIELD_INACTIVE\<rparr>) # rest', cells'))
            else
              (let (rest', cells') = end_of_valid_rib_peers B c rest cells
               in (e # rest', cells')))
         else
           (let (rest', cells') = end_of_valid_rib_peers B c rest cells
            in ((fst e, (snd e)\<lparr>bgp_time_uc_rib_start := 0, bgp_time_uc_rib_end := 0\<rparr>) # rest',
                cells')))
      else
        (let (rest', cells') = end_of_valid_rib_peers B c rest cells in (e # rest', cells')))"

definition end_of_valid_rib :: "u32 \<Rightarrow> routingtables_t \<Rightarrow> collector_t \<Rightarrow> routingtables_t \<times> collector_t" where
  "end_of_valid_rib B rt c =
     (let (ps1, cells1) = end_of_valid_rib_pfx_peers B c (view_peers rt) (view_pfx_peers rt);
          (ps2, cells2) = end_of_valid_rib_peers B c ps1 cells1
      in (rt\<lparr>view_peers := ps2, view_pfx_peers := cells2\<rparr>,
          c\<lparr>publish_flag := True,
            bgp_time_ref_rib_dump_time := bgp_time_uc_rib_dump_time c,
            bgp_time_ref_rib_start_time := bgp_time_uc_rib_start_time c,
            bgp_time_uc_rib_dump_time := 0,
            bgp_time_uc_rib_start_time := 0\<rparr>))"

section \<open>Folding one element\<close>

definition update_prefix_peer_stats :: "perpfx_perpeer_info_t \<Rightarrow> bgpstream_elem_t \<Rightarrow> perpfx_perpeer_info_t" where
  "update_prefix_peer_stats pp elem =
     (if elem_type elem = BGPSTREAM_ELEM_TYPE_ANNOUNCEMENT
      then pp\<lparr>announcements := announcements pp + 1\<rparr>
      else pp\<lparr>withdrawals := withdrawals pp + 1\<rparr>)"

definition update_peer_stats :: "perpeer_info_t \<Rightarrow> bgpstream_elem_t \<Rightarrow> u32 \<Rightarrow> perpeer_info_t" where
  "update_peer_stats p elem asn =
     (if elem_type elem = BGPSTREAM_ELEM_TYPE_ANNOUNCEMENT then
        (let p1 = p\<lparr>announcing_ases := insert asn (announcing_ases p)\<rparr> in
         if pfx_version (elem_prefix elem) = BGPSTREAM_ADDR_VERSION_IPV4
         then p1\<lparr>announced_v4_pfxs := insert (elem_prefix elem) (announced_v4_pfxs p1)\<rparr>
         else if pfx_version (elem_prefix elem) = BGPSTREAM_ADDR_VERSION_IPV6
         then p1\<lparr>announced_v6_pfxs := insert (elem_prefix elem) (announced_v6_pfxs p1)\<rparr>
         else p1)
      else
        (if pfx_version (elem_prefix elem) = BGPSTREAM_ADDR_VERSION_IPV4
         then p\<lparr>withdrawn_v4_pfxs := insert (elem_prefix elem) (withdrawn_v4_pfxs p)\<rparr>
         else if pfx_version (elem_prefix elem) = BGPSTREAM_ADDR_VERSION_IPV6
         then p\<lparr>withdrawn_v6_pfxs := insert (elem_prefix elem) (withdrawn_v6_pfxs p)\<rparr>
         else p))"

text \<open>
  \<^verbatim>\<open>apply_prefix_update\<close>, from the test of the timestamp on: what it does to the
  \<^verbatim>\<open>perpeer_info_t\<close> \<open>p\<close> and to the pfx-peer \<open>pp\<close> it holds pointers to. \<open>asn\<close> is the
  origin computed at the head of the function.
\<close>

definition apply_prefix_update_fields ::
  "u32 \<Rightarrow> perpeer_info_t \<Rightarrow> perpfx_perpeer_info_t \<Rightarrow> bgpstream_elem_t \<Rightarrow> u32 \<Rightarrow> u32
     \<Rightarrow> abort + (perpeer_info_t \<times> perpfx_perpeer_info_t)" where
  "apply_prefix_update_fields B p pp0 elem asn ts =
     (if ts < bgp_time_last_ts pp0 then Inr (p, pp0)
      else
        (let pp = update_prefix_peer_stats (pp0\<lparr>bgp_time_last_ts := ts, orig_asn := asn\<rparr>) elem in
         if peer_state p = BGPWATCHER_VIEW_FIELD_ACTIVE then
           (if pfx_peer_state pp = BGPWATCHER_VIEW_FIELD_INACTIVE \<and>
               elem_type elem = BGPSTREAM_ELEM_TYPE_ANNOUNCEMENT
            then Inr (p, pp\<lparr>pfx_peer_state := BGPWATCHER_VIEW_FIELD_ACTIVE\<rparr>)
            else if pfx_peer_state pp = BGPWATCHER_VIEW_FIELD_ACTIVE \<and>
                    elem_type elem = BGPSTREAM_ELEM_TYPE_WITHDRAWAL
            then Inr (p, pp\<lparr>pfx_peer_state := BGPWATCHER_VIEW_FIELD_INACTIVE\<rparr>)
            else Inr (p, pp))
         else
           (if pfx_peer_state pp \<noteq> BGPWATCHER_VIEW_FIELD_INACTIVE then Inl ASSERTION_FAILED
            else if bgp_fsm_state p = BGPSTREAM_ELEM_PEERSTATE_UNKNOWN then
              (if bgp_time_uc_rib_start p \<noteq> 0 then Inr (p, pp)
               else
                 (let pp1 = pp\<lparr>bgp_time_last_ts := 0,
                                orig_asn := ROUTINGTABLES_DOWN_ORIGIN_ASN B\<rparr>
                  in if elem_type elem = BGPSTREAM_ELEM_TYPE_ANNOUNCEMENT
                     then Inr (p, pp1\<lparr>announcements := announcements pp1 - 1\<rparr>)
                     else Inr (p, pp1\<lparr>withdrawals := withdrawals pp1 - 1\<rparr>)))
            else
              Inr (p\<lparr>peer_state := BGPWATCHER_VIEW_FIELD_ACTIVE,
                      bgp_fsm_state := BGPSTREAM_ELEM_PEERSTATE_ESTABLISHED,
                      bgp_time_ref_rib_start := ts,
                      bgp_time_ref_rib_end := ts\<rparr>,
                   if elem_type elem = BGPSTREAM_ELEM_TYPE_ANNOUNCEMENT
                   then pp\<lparr>pfx_peer_state := BGPWATCHER_VIEW_FIELD_ACTIVE\<rparr>
                   else pp))))"

text \<open>
  \<^verbatim>\<open>apply_prefix_update\<close>. The peer must be in the view (the iterator points at it). The
  peer counters and sets are updated first; the pfx-peer is looked up, and created
  inactive when it is missing. The source writes through pointers, so what it wrote
  stays written on every return, also on the early return of an out-of-order element.
\<close>

definition apply_prefix_update ::
  "u32 \<Rightarrow> routingtables_t \<Rightarrow> collector_t \<Rightarrow> bgpstream_peer_id_t \<Rightarrow> bgpstream_elem_t \<Rightarrow> u32
     \<Rightarrow> abort + routingtables_t" where
  "apply_prefix_update B rt c peer_id elem ts =
     (if peer_id = 0 then Inl ASSERTION_FAILED else
      case map_of (view_peers rt) peer_id of
        None \<Rightarrow> Inl ASSERTION_FAILED
      | Some p0 \<Rightarrow>
         (let asn = (if elem_type elem = BGPSTREAM_ELEM_TYPE_ANNOUNCEMENT
                     then get_origin_asn B (aspath elem)
                     else ROUTINGTABLES_DOWN_ORIGIN_ASN B);
              p = update_peer_stats
                    (if elem_type elem = BGPSTREAM_ELEM_TYPE_ANNOUNCEMENT
                     then p0\<lparr>pfx_announcements_cnt := pfx_announcements_cnt p0 + 1\<rparr>
                     else p0\<lparr>pfx_withdrawals_cnt := pfx_withdrawals_cnt p0 + 1\<rparr>) elem asn;
              k = (elem_prefix elem, peer_id);
              pp0 = (case map_of (view_pfx_peers rt) k of
                       None \<Rightarrow> perpfx_perpeer_info_create B asn
                     | Some pp \<Rightarrow> pp)
          in case apply_prefix_update_fields B p pp0 elem asn ts of
               Inl a \<Rightarrow> Inl a
             | Inr (p', pp') \<Rightarrow> Inr (set_pfx_peer k pp' (set_peer peer_id p' rt))))"

text \<open>
  \<^verbatim>\<open>apply_state_update\<close>. The two assertions that close the function compare the FSM
  state with the active flag of the peer.
\<close>

definition apply_state_update ::
  "u32 \<Rightarrow> routingtables_t \<Rightarrow> collector_t \<Rightarrow> bgpstream_peer_id_t \<Rightarrow> bgpstream_elem_peerstate_t \<Rightarrow> u32
     \<Rightarrow> abort + routingtables_t" where
  "apply_state_update B rt c peer_id new ts =
     (if peer_id = 0 then Inl ASSERTION_FAILED else
      case map_of (view_peers rt) peer_id of
        None \<Rightarrow> Inl ASSERTION_FAILED
      | Some p0 \<Rightarrow>
         (let p = p0\<lparr>state_messages_cnt := state_messages_cnt p0 + 1\<rparr>;
              (p', rt') =
                (if bgp_fsm_state p = BGPSTREAM_ELEM_PEERSTATE_ESTABLISHED \<and>
                    new \<noteq> BGPSTREAM_ELEM_PEERSTATE_ESTABLISHED then
                   (let p1 = p\<lparr>bgp_fsm_state := new,
                                bgp_time_ref_rib_start := ts,
                                bgp_time_ref_rib_end := ts\<rparr>;
                        reset_uc = (ts \<ge> bgp_time_uc_rib_start p1);
                        p2 = (if reset_uc
                              then p1\<lparr>bgp_time_uc_rib_start := 0, bgp_time_uc_rib_end := 0\<rparr>
                              else p1);
                        rt1 = reset_peerpfxdata B (set_peer peer_id p2 rt) peer_id reset_uc;
                        p3 = p2\<lparr>peer_state := BGPWATCHER_VIEW_FIELD_INACTIVE\<rparr>
                    in (p3, set_peer peer_id p3 rt1))
                 else if bgp_fsm_state p \<noteq> BGPSTREAM_ELEM_PEERSTATE_ESTABLISHED \<and>
                         new = BGPSTREAM_ELEM_PEERSTATE_ESTABLISHED then
                   (let p1 = p\<lparr>bgp_fsm_state := new,
                                bgp_time_ref_rib_start := ts,
                                bgp_time_ref_rib_end := ts,
                                peer_state := BGPWATCHER_VIEW_FIELD_ACTIVE\<rparr>
                    in (p1, set_peer peer_id p1 rt))
                 else if bgp_fsm_state p \<noteq> new then
                   (let p1 = p\<lparr>bgp_fsm_state := new,
                                bgp_time_ref_rib_start := ts,
                                bgp_time_ref_rib_end := ts\<rparr>
                    in (p1, set_peer peer_id p1 rt))
                 else (p, set_peer peer_id p rt))
          in
          if bgp_fsm_state p' = BGPSTREAM_ELEM_PEERSTATE_ESTABLISHED
          then (if peer_state p' = BGPWATCHER_VIEW_FIELD_ACTIVE then Inr rt' else Inl ASSERTION_FAILED)
          else (if peer_state p' = BGPWATCHER_VIEW_FIELD_INACTIVE then Inr rt' else Inl ASSERTION_FAILED)))"

definition apply_rib_message ::
  "u32 \<Rightarrow> routingtables_t \<Rightarrow> collector_t \<Rightarrow> bgpstream_peer_id_t \<Rightarrow> bgpstream_elem_t \<Rightarrow> u32
     \<Rightarrow> abort + routingtables_t" where
  "apply_rib_message B rt c peer_id elem ts =
     (if peer_id = 0 then Inl ASSERTION_FAILED else
      case map_of (view_peers rt) peer_id of
        None \<Rightarrow> Inl ASSERTION_FAILED
      | Some p0 \<Rightarrow>
         (let p1 = (if bgp_time_uc_rib_start p0 = 0 then p0\<lparr>bgp_time_uc_rib_start := ts\<rparr> else p0);
              p = p1\<lparr>bgp_time_uc_rib_end := ts, rib_messages_cnt := rib_messages_cnt p1 + 1\<rparr>;
              k = (elem_prefix elem, peer_id);
              pp0 = (case map_of (view_pfx_peers rt) k of
                       None \<Rightarrow> perpfx_perpeer_info_create B (ROUTINGTABLES_DOWN_ORIGIN_ASN B)
                     | Some pp \<Rightarrow> pp);
              pp = pp0\<lparr>bgp_time_uc_delta_ts := ts - bgp_time_uc_rib_start p,
                        uc_origin_asn := get_origin_asn B (aspath elem)\<rparr>
          in Inr (set_pfx_peer k pp (set_peer peer_id p rt))))"

section \<open>The state of a collector\<close>

text \<open>
  \<^verbatim>\<open>update_collector_state\<close>. \<open>W\<close> stands for the macro
  \<^verbatim>\<open>ROUTINGTABLES_COLLECTOR_WALL_UPDATE_FR\<close>, whose header is not at hand, and \<open>now\<close> for
  what \<^verbatim>\<open>get_wall_time_now\<close> reads from the clock.
\<close>

definition count_peer ::
  "collector_t \<Rightarrow> u32 \<times> bool \<Rightarrow> bgpstream_peer_id_t \<times> perpeer_info_t \<Rightarrow> u32 \<times> bool" where
  "count_peer c acc e =
     (if fst e \<in> collector_peerids c then
        (case peer_state (snd e) of
           BGPWATCHER_VIEW_FIELD_ACTIVE \<Rightarrow> (fst acc + 1, snd acc)
         | BGPWATCHER_VIEW_FIELD_INACTIVE \<Rightarrow>
             (fst acc, if bgp_fsm_state (snd e) \<noteq> BGPSTREAM_ELEM_PEERSTATE_UNKNOWN
                       then False else snd acc))
      else acc)"

definition update_collector_state ::
  "u32 \<Rightarrow> u32 \<Rightarrow> routingtables_t \<Rightarrow> collector_t \<Rightarrow> bgpstream_record_t \<Rightarrow> collector_t" where
  "update_collector_state W now rt c record =
     (let c1 = (if record_time record > bgp_time_last c then
                  (if record_time record > bgp_time_last c + W
                   then c\<lparr>wall_time_last := now\<rparr> else c)\<lparr>bgp_time_last := record_time record\<rparr>
                else c);
          (cnt, unknown) = foldl (count_peer c1) (0, True) (view_peers rt)
      in c1\<lparr>active_peers_cnt := cnt,
            state := (if cnt \<noteq> 0 then ROUTINGTABLES_COLLECTOR_STATE_UP
                      else if unknown then ROUTINGTABLES_COLLECTOR_STATE_UNKNOWN
                      else ROUTINGTABLES_COLLECTOR_STATE_DOWN)\<rparr>)"

section \<open>Folding a record\<close>

text \<open>
  Modelled from the spec: \<^verbatim>\<open>bgpwatcher_view_iter_add_peer\<close> and the peer-signature registry
  behind it belong to the view library, which is not among the sources. The registry maps
  a signature (collector name, peer address, peer AS number) to a stable non-zero id,
  created on first sighting and allocated sequentially from 1; the id 0 reports failure,
  here when the 16-bit ids are used up. A peer new to the view enters it inactive, and
  \<^verbatim>\<open>collector_process_valid_bgpinfo\<close> gives it a fresh \<^verbatim>\<open>perpeer_info_t\<close> at once.
\<close>

definition bgpwatcher_view_iter_add_peer ::
  "routingtables_t \<Rightarrow> string \<Rightarrow> bgpstream_ip_addr_t \<Rightarrow> u32 \<Rightarrow> routingtables_t \<times> bgpstream_peer_id_t" where
  "bgpwatcher_view_iter_add_peer rt collector ip asn =
     (case map_of (peersigns rt) (collector, ip, asn) of
        Some peer_id \<Rightarrow>
          (if map_of (view_peers rt) peer_id = None
           then (rt\<lparr>view_peers := AList.update peer_id perpeer_info_create (view_peers rt)\<rparr>,
                 peer_id)
           else (rt, peer_id))
      | None \<Rightarrow>
          (if length (peersigns rt) + 1 < 2 ^ 16 then
             (let peer_id = of_nat (length (peersigns rt) + 1) in
              (rt\<lparr>peersigns := peersigns rt @ [((collector, ip, asn), peer_id)],
                  view_peers := AList.update peer_id perpeer_info_create (view_peers rt)\<rparr>, peer_id))
           else (rt, 0)))"

text \<open>
  The test at the head of the element loop: a RIB row or an announcement is skipped when
  its path is empty or when its first segment is a single AS number other than the
  peer's.
\<close>

definition skip_elem :: "bgpstream_elem_t \<Rightarrow> bool" where
  "skip_elem elem \<longleftrightarrow>
     (elem_type elem = BGPSTREAM_ELEM_TYPE_RIB \<or> elem_type elem = BGPSTREAM_ELEM_TYPE_ANNOUNCEMENT) \<and>
     (case aspath elem of
        [] \<Rightarrow> True
      | SEG_ASN a # _ \<Rightarrow> a \<noteq> peer_asnumber elem
      | _ \<Rightarrow> False)"

text \<open>What the loop does with an element it does not skip, the peer id in hand.\<close>

definition apply_elem ::
  "u32 \<Rightarrow> routingtables_t \<Rightarrow> collector_t \<Rightarrow> bgpstream_peer_id_t \<Rightarrow> bgpstream_elem_t \<Rightarrow> u32
     \<Rightarrow> abort + routingtables_t" where
  "apply_elem B rt c peer_id elem ts =
     (if elem_type elem = BGPSTREAM_ELEM_TYPE_ANNOUNCEMENT \<or>
         elem_type elem = BGPSTREAM_ELEM_TYPE_WITHDRAWAL
      then apply_prefix_update B rt c peer_id elem ts
      else if elem_type elem = BGPSTREAM_ELEM_TYPE_PEERSTATE
      then apply_state_update B rt c peer_id (new_state elem) ts
      else if elem_type elem = BGPSTREAM_ELEM_TYPE_RIB
      then apply_rib_message B rt c peer_id elem ts
      else Inl ASSERTION_FAILED)"

text \<open>
  The element loop. Its result is the return code so far (0, or -1 when no peer id could
  be had, which ends the function at once), the engine and the collector.
\<close>

fun process_elems ::
  "u32 \<Rightarrow> bgpstream_record_t \<Rightarrow> bgpstream_elem_t list \<Rightarrow> routingtables_t \<Rightarrow> collector_t
     \<Rightarrow> abort + (int \<times> routingtables_t \<times> collector_t)" where
  "process_elems B record [] rt c = Inr (0, rt, c)"
| "process_elems B record (elem # rest) rt c =
     (if skip_elem elem then process_elems B record rest rt c
      else
        (case bgpwatcher_view_iter_add_peer rt (dump_collector record)
                (peer_address elem) (peer_asnumber elem) of
           (rt1, peer_id) \<Rightarrow>
             if peer_id = 0 then Inr (- 1, rt1, c)
             else
               (case map_of (view_peers rt1) peer_id of
                  None \<Rightarrow> Inl ASSERTION_FAILED
                | Some p \<Rightarrow>
                   (let rt2 = set_peer peer_id (p\<lparr>last_ts := record_time record\<rparr>) rt1;
                        c1 = c\<lparr>collector_peerids := insert peer_id (collector_peerids c)\<rparr>
                    in case apply_elem B rt2 c1 peer_id elem (record_time record) of
                         Inl a \<Rightarrow> Inl a
                       | Inr rt3 \<Rightarrow> process_elems B record rest rt3 c1))))"

definition collector_process_valid_bgpinfo ::
  "u32 \<Rightarrow> routingtables_t \<Rightarrow> collector_t \<Rightarrow> bgpstream_record_t
     \<Rightarrow> abort + (int \<times> routingtables_t \<times> collector_t)" where
  "collector_process_valid_bgpinfo B rt c record =
     (let (rt1, c1) =
            (if dump_type record = BGPSTREAM_RIB \<and> dump_pos record = BGPSTREAM_DUMP_START then
               (let (rt', c') = (if bgp_time_uc_rib_dump_time c \<noteq> 0
                                 then stop_uc_process B rt c else (rt, c))
                in (rt', c'\<lparr>bgp_time_uc_rib_dump_time := dump_time record,
                            bgp_time_uc_rib_start_time := record_time record\<rparr>))
             else (rt, c))
      in
      if dump_type record = BGPSTREAM_RIB \<and> dump_time record \<noteq> bgp_time_uc_rib_dump_time c1
      then Inr (0, rt1, c1)
      else
        (case process_elems B record (elems record) rt1 c1 of
           Inl a \<Rightarrow> Inl a
         | Inr (ret, rt2, c2) \<Rightarrow>
             if ret \<noteq> 0 then Inr (ret, rt2, c2)
             else if dump_type record = BGPSTREAM_RIB \<and> dump_pos record = BGPSTREAM_DUMP_END
             then (let (rt3, c3) = end_of_valid_rib B rt2 c2 in Inr (0, rt3, c3))
             else Inr (0, rt2, c2)))"

text \<open>
  A corrupted record. The peers of the collector whose reference RIB it may have damaged,
  and those whose under-construction RIB it may have damaged:
\<close>

definition cor_affected :: "routingtables_t \<Rightarrow> collector_t \<Rightarrow> bgpstream_record_t \<Rightarrow> bgpstream_peer_id_t \<Rightarrow> bool" where
  "cor_affected rt c record peer_id \<longleftrightarrow>
     peer_id \<in> collector_peerids c \<and>
     (case map_of (view_peers rt) peer_id of
        None \<Rightarrow> False
      | Some p \<Rightarrow> bgp_time_ref_rib_start p \<noteq> 0 \<and> record_time record \<ge> bgp_time_ref_rib_start p)"

definition cor_uc_affected :: "routingtables_t \<Rightarrow> collector_t \<Rightarrow> bgpstream_record_t \<Rightarrow> bgpstream_peer_id_t \<Rightarrow> bool" where
  "cor_uc_affected rt c record peer_id \<longleftrightarrow>
     peer_id \<in> collector_peerids c \<and>
     (case map_of (view_peers rt) peer_id of
        None \<Rightarrow> False
      | Some p \<Rightarrow> bgp_time_uc_rib_start p \<noteq> 0 \<and> record_time record \<ge> bgp_time_uc_rib_start p)"

definition corrupted_pfx_peer ::
  "u32 \<Rightarrow> routingtables_t \<Rightarrow> collector_t \<Rightarrow> bgpstream_record_t
     \<Rightarrow> pfx_peer_key \<times> perpfx_perpeer_info_t \<Rightarrow> pfx_peer_key \<times> perpfx_perpeer_info_t" where
  "corrupted_pfx_peer B rt c record e =
     (let pp1 = (if cor_affected rt c record (snd (fst e)) \<and>
                    bgp_time_last_ts (snd e) \<noteq> 0 \<and> bgp_time_last_ts (snd e) \<le> record_time record
                 then (snd e)\<lparr>bgp_time_last_ts := 0,
                               orig_asn := ROUTINGTABLES_DOWN_ORIGIN_ASN B,
                               pfx_peer_state := BGPWATCHER_VIEW_FIELD_INACTIVE\<rparr>
                 else snd e);
          pp2 = (if cor_uc_affected rt c record (snd (fst e))
                 then pp1\<lparr>bgp_time_uc_delta_ts := 0,
                          uc_origin_asn := ROUTINGTABLES_DOWN_ORIGIN_ASN B\<rparr>
                 else pp1)
      in (fst e, pp2))"

definition corrupted_peer ::
  "routingtables_t \<Rightarrow> collector_t \<Rightarrow> bgpstream_record_t
     \<Rightarrow> bgpstream_peer_id_t \<times> perpeer_info_t \<Rightarrow> bgpstream_peer_id_t \<times> perpeer_info_t" where
  "corrupted_peer rt c record e =
     (let p1 = (if cor_affected rt c record (fst e)
                then (snd e)\<lparr>bgp_fsm_state := BGPSTREAM_ELEM_PEERSTATE_UNKNOWN,
                              bgp_time_ref_rib_start := 0,
                              bgp_time_ref_rib_end := 0,
                              peer_state := BGPWATCHER_VIEW_FIELD_INACTIVE\<rparr>
                else snd e);
          p2 = (if cor_uc_affected rt c record (fst e)
                then p1\<lparr>bgp_time_uc_rib_start := 0, bgp_time_uc_rib_end := 0\<rparr>
                else p1)
      in (fst e, p2))"

definition collector_process_corrupted_message ::
  "u32 \<Rightarrow> routingtables_t \<Rightarrow> collector_t \<Rightarrow> bgpstream_record_t
     \<Rightarrow> abort + (int \<times> routingtables_t \<times> collector_t)" where
  "collector_process_corrupted_message B rt c record =
     (if \<exists>peer_id \<in> collector_peerids c. map_of (view_peers rt) peer_id = None
      then Inl ASSERTION_FAILED
      else Inr (0, rt\<lparr>view_pfx_peers := map (corrupted_pfx_peer B rt c record) (view_pfx_peers rt),
                      view_peers := map (corrupted_peer rt c record) (view_peers rt)\<rparr>, c))"

text \<open>
  \<^verbatim>\<open>routingtables_process_record\<close>. The collector is fetched (and created when it is new),
  the record is discarded or folded by its status, and the collector, which the source
  updates in place, is stored back with its state recomputed.
\<close>

definition store_collector ::
  "u32 \<Rightarrow> u32 \<Rightarrow> bgpstream_record_t \<Rightarrow> int \<Rightarrow> routingtables_t \<Rightarrow> collector_t
     \<Rightarrow> abort + (int \<times> routingtables_t)" where
  "store_collector W now record ret rt c =
     Inr (ret, rt\<lparr>collectors :=
                    (collectors rt)(dump_collector record \<mapsto> update_collector_state W now rt c record)\<rparr>)"

definition fold_record ::
  "u32 \<Rightarrow> u32 \<Rightarrow> u32 \<Rightarrow> routingtables_t \<Rightarrow> collector_t \<Rightarrow> bgpstream_record_t
     \<Rightarrow> abort + (int \<times> routingtables_t)" where
  "fold_record W now B rt c record =
     (case status record of
        BGPSTREAM_RECORD_STATUS_VALID_RECORD \<Rightarrow>
          (case collector_process_valid_bgpinfo B rt c record of
             Inl a \<Rightarrow> Inl a
           | Inr (ret, rt1, c1) \<Rightarrow>
               store_collector W now record ret rt1 (c1\<lparr>valid_record_cnt := valid_record_cnt c1 + 1\<rparr>))
      | BGPSTREAM_RECORD_STATUS_CORRUPTED_SOURCE \<Rightarrow>
          (case collector_process_corrupted_message B rt c record of
             Inl a \<Rightarrow> Inl a
           | Inr (ret, rt1, c1) \<Rightarrow>
               store_collector W now record ret rt1
                 (c1\<lparr>corrupted_record_cnt := corrupted_record_cnt c1 + 1\<rparr>))
      | BGPSTREAM_RECORD_STATUS_CORRUPTED_RECORD \<Rightarrow>
          (case collector_process_corrupted_message B rt c record of
             Inl a \<Rightarrow> Inl a
           | Inr (ret, rt1, c1) \<Rightarrow>
               store_collector W now record ret rt1
                 (c1\<lparr>corrupted_record_cnt := corrupted_record_cnt c1 + 1\<rparr>))
      | _ \<Rightarrow>
          (let c1 = (if record_time record < bgp_time_last c
                     then c\<lparr>bgp_time_last := record_time record\<rparr> else c)
           in store_collector W now record 0 rt (c1\<lparr>empty_record_cnt := empty_record_cnt c1 + 1\<rparr>)))"

definition routingtables_process_record ::
  "u32 \<Rightarrow> u32 \<Rightarrow> u32 \<Rightarrow> routingtables_t \<Rightarrow> bgpstream_record_t \<Rightarrow> abort + (int \<times> routingtables_t)" where
  "routingtables_process_record W now B rt record =
     (let (rt0, c) = get_collector_data rt (dump_collector record) in
      if record_time record < bgp_time_ref_rib_start_time c \<and>
         bgp_time_uc_rib_dump_time c \<noteq> 0 \<and>
         record_time record < bgp_time_ref_rib_start_time c
      then Inr (0, rt0)
      else fold_record W now B rt0 c record)"

section \<open>Applying an element twice\<close>

text \<open>
  The engine state with the update counters blanked: the counters of announcements and
  withdrawals received by a peer, and those applied to a pfx-peer.
\<close>

definition erase_peer_counters :: "perpeer_info_t \<Rightarrow> perpeer_info_t" where
  "erase_peer_counters p = p\<lparr>pfx_announcements_cnt := 0, pfx_withdrawals_cnt := 0\<rparr>"

definition erase_pfx_peer_counters :: "perpfx_perpeer_info_t \<Rightarrow> perpfx_perpeer_info_t" where
  "erase_pfx_peer_counters pp = pp\<lparr>announcements := 0, withdrawals := 0\<rparr>"

definition erase_update_counters :: "routingtables_t \<Rightarrow> routingtables_t" where
  "erase_update_counters rt =
     rt\<lparr>view_peers := map (\<lambda>e. (fst e, erase_peer_counters (snd e))) (view_peers rt),
        view_pfx_peers := map (\<lambda>e. (fst e, erase_pfx_peer_counters (snd e))) (view_pfx_peers rt)\<rparr>"

definition apply_twice ::
  "u32 \<Rightarrow> routingtables_t \<Rightarrow> collector_t \<Rightarrow> bgpstream_peer_id_t \<Rightarrow> bgpstream_elem_t \<Rightarrow> u32
     \<Rightarrow> abort + routingtables_t" where
  "apply_twice B rt c peer_id elem ts =
     (case apply_prefix_update B rt c peer_id elem ts of
        Inl a \<Rightarrow> Inl a
      | Inr rt1 \<Rightarrow> apply_prefix_update B rt1 c peer_id elem ts)"

text \<open>
  Names for three steps of \<^verbatim>\<open>apply_prefix_update\<close>: counting the element on the peer,
  counting it and recording it in the sets of the peer, and bringing the peer up.
\<close>

definition count_update :: "perpeer_info_t \<Rightarrow> bgpstream_elem_t \<Rightarrow> perpeer_info_t" where
  "count_update p elem =
     (if elem_type elem = BGPSTREAM_ELEM_TYPE_ANNOUNCEMENT
      then p\<lparr>pfx_announcements_cnt := pfx_announcements_cnt p + 1\<rparr>
      else p\<lparr>pfx_withdrawals_cnt := pfx_withdrawals_cnt p + 1\<rparr>)"

definition count_and_stats :: "perpeer_info_t \<Rightarrow> bgpstream_elem_t \<Rightarrow> u32 \<Rightarrow> perpeer_info_t" where
  "count_and_stats p elem asn = update_peer_stats (count_update p elem) elem asn"

definition peer_comes_up :: "u32 \<Rightarrow> perpeer_info_t \<Rightarrow> perpeer_info_t" where
  "peer_comes_up ts p =
     p\<lparr>peer_state := BGPWATCHER_VIEW_FIELD_ACTIVE,
       bgp_fsm_state := BGPSTREAM_ELEM_PEERSTATE_ESTABLISHED,
       bgp_time_ref_rib_start := ts, bgp_time_ref_rib_end := ts\<rparr>"

section \<open>The two loops of the end of a RIB, entry by entry\<close>

text \<open>
  \<open>missed_withdrawal\<close> picks the pfx-peers of a peer that the end of a RIB counts as
  positive mismatches, given the start of the under-construction RIB of the peer.
  \<open>rib_pfx_peer\<close> and \<open>rib_peer\<close> say what the first loop does to one pfx-peer and
  the second loop to one peer; \<open>same_uc_start\<close> relates two peer tables whose peers
  have the same \<open>bgp_time_uc_rib_start\<close>.
\<close>

definition missed_withdrawal ::
  "u32 \<Rightarrow> bgpstream_peer_id_t \<Rightarrow> u32 \<Rightarrow> pfx_peer_key \<times> perpfx_perpeer_info_t \<Rightarrow> bool" where
  "missed_withdrawal B peer_id start e \<longleftrightarrow>
     snd (fst e) = peer_id \<and>
     bgp_time_uc_delta_ts (snd e) + start > bgp_time_last_ts (snd e) \<and>
     \<not> (bgp_time_last_ts (snd e) > start - 60) \<and>
     uc_origin_asn (snd e) = ROUTINGTABLES_DOWN_ORIGIN_ASN B \<and>
     pfx_peer_state (snd e) = BGPWATCHER_VIEW_FIELD_ACTIVE"

definition rib_pfx_peer ::
  "u32 \<Rightarrow> collector_t \<Rightarrow> peer_table \<Rightarrow> pfx_peer_key \<times> perpfx_perpeer_info_t
     \<Rightarrow> pfx_peer_key \<times> perpfx_perpeer_info_t" where
  "rib_pfx_peer B c ps e =
     (case map_of ps (snd (fst e)) of
        None \<Rightarrow> e
      | Some p \<Rightarrow>
          if snd (fst e) \<in> collector_peerids c \<and> bgp_time_uc_rib_start p \<noteq> 0
          then (fst e, snd (end_of_valid_rib_pfx_peer B p (snd e))) else e)"

definition rib_peer ::
  "collector_t \<Rightarrow> bgpstream_peer_id_t \<times> perpeer_info_t \<Rightarrow> bgpstream_peer_id_t \<times> perpeer_info_t" where
  "rib_peer c e =
     (if fst e \<in> collector_peerids c then
        (if bgp_time_uc_rib_start (snd e) = 0 \<and>
            last_ts (snd e) < bgp_time_last c - ROUTINGTABLES_MAX_INACTIVE_TIME then
           (if bgp_fsm_state (snd e) = BGPSTREAM_ELEM_PEERSTATE_ESTABLISHED
            then (fst e, (snd e)\<lparr>bgp_fsm_state := BGPSTREAM_ELEM_PEERSTATE_UNKNOWN,
                                 peer_state := BGPWATCHER_VIEW_FIELD_INACTIVE\<rparr>)
            else e)
         else (fst e, (snd e)\<lparr>bgp_time_uc_rib_start := 0, bgp_time_uc_rib_end := 0\<rparr>))
      else e)"

definition same_uc_start :: "peer_table \<Rightarrow> peer_table \<Rightarrow> bool" where
  "same_uc_start ps ps0 \<longleftrightarrow>
     (\<forall>k. map_option bgp_time_uc_rib_start (map_of ps k) =
          map_option bgp_time_uc_rib_start (map_of ps0 k))"

section \<open>The engine from its creation on\<close>

text \<open>
  \<^verbatim>\<open>routingtables_create\<close> gives an engine without peers, pfx-peers and collectors. The
  state a collector should be in, given the peers of the view: up when one of its peers
  is active, else down when one of its peers has a known FSM state, else unknown.
\<close>

definition routingtables_create :: routingtables_t where
  "routingtables_create = \<lparr>peersigns = [], view_peers = [], view_pfx_peers = [], collectors = Map.empty\<rparr>"

definition active_member :: "collector_t \<Rightarrow> bgpstream_peer_id_t \<times> perpeer_info_t \<Rightarrow> bool" where
  "active_member c e \<longleftrightarrow>
     fst e \<in> collector_peerids c \<and> peer_state (snd e) = BGPWATCHER_VIEW_FIELD_ACTIVE"

definition known_member :: "collector_t \<Rightarrow> bgpstream_peer_id_t \<times> perpeer_info_t \<Rightarrow> bool" where
  "known_member c e \<longleftrightarrow>
     fst e \<in> collector_peerids c \<and> bgp_fsm_state (snd e) \<noteq> BGPSTREAM_ELEM_PEERSTATE_UNKNOWN"

definition expected_state :: "routingtables_t \<Rightarrow> collector_t \<Rightarrow> collector_state_t" where
  "expected_state rt c =
     (if \<exists>e \<in> set (view_peers rt). active_member c e then ROUTINGTABLES_COLLECTOR_STATE_UP
      else if \<exists>e \<in> set (view_peers rt). known_member c e then ROUTINGTABLES_COLLECTOR_STATE_DOWN
      else ROUTINGTABLES_COLLECTOR_STATE_UNKNOWN)"

text \<open>
  What the engines reached from \<^verbatim>\<open>routingtables_create\<close> have in common: the peers of
  the view have distinct ids; the registry holds the ids 1, 2, ... in the order they were
  given out; every peer id of a collector belongs to a signature under the name of that
  collector; and every collector is in the state it should be in. \<open>untouched S\<close> relates
  two peer tables that agree on the peers outside \<open>S\<close>.
\<close>

definition untouched :: "bgpstream_peer_id_t set \<Rightarrow> peer_table \<Rightarrow> peer_table \<Rightarrow> bool" where
  "untouched S ps ps' \<longleftrightarrow> filter (\<lambda>e. fst e \<notin> S) ps' = filter (\<lambda>e. fst e \<notin> S) ps"

definition sigs_ok :: "routingtables_t \<Rightarrow> bool" where
  "sigs_ok rt \<longleftrightarrow>
     length (peersigns rt) < 2 ^ 16 \<and>
     (\<forall>i < length (peersigns rt). snd (peersigns rt ! i) = of_nat (Suc i))"

definition owners_ok :: "routingtables_t \<Rightarrow> bool" where
  "owners_ok rt \<longleftrightarrow>
     (\<forall>name c peer_id. collectors rt name = Some c \<and> peer_id \<in> collector_peerids c \<longrightarrow>
        (\<exists>ip asn. ((name, ip, asn), peer_id) \<in> set (peersigns rt)))"

definition engine_inv :: "routingtables_t \<Rightarrow> bool" where
  "engine_inv rt \<longleftrightarrow>
     distinct (map fst (view_peers rt)) \<and> sigs_ok rt \<and> owners_ok rt \<and>
     (\<forall>name c. collectors rt name = Some c \<longrightarrow> state c = expected_state rt c)"

text \<open>
  The engines reached by folding records, one call of \<^verbatim>\<open>routingtables_process_record\<close>
  after the other, each at its own wall-clock time.
\<close>

inductive reachable :: "u32 \<Rightarrow> u32 \<Rightarrow> routingtables_t \<Rightarrow> bool" for W B where
  created: "reachable W B routingtables_create"
| processed: "reachable W B rt \<Longrightarrow>
     routingtables_process_record W now B rt record = Inr (ret, rt') \<Longrightarrow> reachable W B rt'"

section \<open>The record counters of a collector\<close>

definition record_counters :: "collector_t \<Rightarrow> u32 \<times> u32 \<times> u32" where
  "record_counters c = (valid_record_cnt c, corrupted_record_cnt c, empty_record_cnt c)"

section \<open>Example states\<close>

text \<open>Concrete prefixes, elements and engine states on which the theorems below are run.\<close>

definition ex_pfx :: bgpstream_pfx_t where
  "ex_pfx = \<lparr>pfx_version = BGPSTREAM_ADDR_VERSION_IPV4, pfx_addr = [10, 0, 0, 0], mask_len = 24\<rparr>"

definition ex_elem :: "bgpstream_elem_type_t \<Rightarrow> bgpstream_elem_t" where
  "ex_elem t = \<lparr>elem_type = t, peer_address = (BGPSTREAM_ADDR_VERSION_IPV4, [192, 0, 2, 1]),
      peer_asnumber = 65001, elem_prefix = ex_pfx, aspath = [SEG_ASN 65001],
      new_state = BGPSTREAM_ELEM_PEERSTATE_UNKNOWN\<rparr>"

definition ex_peer_established :: perpeer_info_t where
  "ex_peer_established = perpeer_info_create\<lparr>peer_state := BGPWATCHER_VIEW_FIELD_ACTIVE,
      bgp_fsm_state := BGPSTREAM_ELEM_PEERSTATE_ESTABLISHED,
      bgp_time_ref_rib_start := 100, bgp_time_ref_rib_end := 100\<rparr>"

definition ex_rt :: "perpeer_info_t \<Rightarrow> routingtables_t" where
  "ex_rt p = \<lparr>peersigns = [(([], (BGPSTREAM_ADDR_VERSION_IPV4, [192, 0, 2, 1]), 65001), 1)],
      view_peers = [(1, p)], view_pfx_peers = [], collectors = Map.empty\<rparr>"

definition ex_record :: "bgpstream_record_status_t \<Rightarrow> u32 \<Rightarrow> bgpstream_record_t" where
  "ex_record st t = \<lparr>status = st, dump_type = BGPSTREAM_UPDATE, dump_pos = BGPSTREAM_DUMP_MIDDLE,
      dump_time = t, record_time = t, dump_project = ''ris'', dump_collector = ''rrc00'',
      elems = []\<rparr>"

definition ex_rt_collector :: "collector_t \<Rightarrow> routingtables_t" where
  "ex_rt_collector c = \<lparr>peersigns = [], view_peers = [], view_pfx_peers = [],
      collectors = [''rrc00'' \<mapsto> c]\<rparr>"

definition ex_collector :: "u32 \<Rightarrow> u32 \<Rightarrow> collector_t" where
  "ex_collector ref uc = new_collector\<lparr>bgp_time_last := 1000, bgp_time_ref_rib_start_time := ref,
      bgp_time_uc_rib_dump_time := uc\<rparr>"

definition ex_peer_uc :: perpeer_info_t where
  "ex_peer_uc = ex_peer_established\<lparr>bgp_time_uc_rib_start := 2000, bgp_time_uc_rib_end := 2005,
      last_ts := 2005\<rparr>"

definition ex_cell_live :: perpfx_perpeer_info_t where
  "ex_cell_live = (perpfx_perpeer_info_create 4200000000 65003)
      \<lparr>pfx_peer_state := BGPWATCHER_VIEW_FIELD_ACTIVE, bgp_time_last_ts := 1000\<rparr>"

definition ex_rib_rt :: routingtables_t where
  "ex_rib_rt = (ex_rt ex_peer_uc)\<lparr>view_pfx_peers := [((ex_pfx, 1), ex_cell_live)]\<rparr>"

definition ex_rib_collector :: collector_t where
  "ex_rib_collector = new_collector\<lparr>collector_peerids := {1}, bgp_time_last := 2010,
      bgp_time_uc_rib_dump_time := 2000, bgp_time_uc_rib_start_time := 2000\<rparr>"

definition ex_state_record :: bgpstream_record_t where
  "ex_state_record = (ex_record BGPSTREAM_RECORD_STATUS_VALID_RECORD 100)
     \<lparr>elems := [(ex_elem BGPSTREAM_ELEM_TYPE_PEERSTATE)
                   \<lparr>new_state := BGPSTREAM_ELEM_PEERSTATE_ESTABLISHED\<rparr>]\<rparr>"

unbundle bit_operations_syntax

section \<open>The prefix index: a Patricia tree in a heap\<close>

text \<open>
  Nodes live in a heap, a list indexed by their addresses; a pointer is an address or
  \<^verbatim>\<open>NULL\<close> (\<open>None\<close>). A node whose prefix has the version
  \<^verbatim>\<open>BGPSTREAM_ADDR_VERSION_UNKNOWN\<close> is a glue node. The address of a prefix is the 16 bytes
  of its storage; for IPv4 the first four bytes hold the address.
\<close>

record bgpstream_patricia_node_t =
  node_bit :: nat
  node_prefix :: bgpstream_pfx_t
  node_l :: "nat option"
  node_r :: "nat option"
  node_parent :: "nat option"
  node_user :: "nat option"

record bgpstream_patricia_tree_t =
  head4 :: "nat option"
  head6 :: "nat option"
  ipv4_active_nodes :: "64 word"
  ipv6_active_nodes :: "64 word"
  heap :: "bgpstream_patricia_node_t list"

definition BGPSTREAM_PATRICIA_MAXBITS :: nat where
  "BGPSTREAM_PATRICIA_MAXBITS = 128"

definition BIT_TEST :: "8 word \<Rightarrow> 8 word \<Rightarrow> bool" where
  "BIT_TEST f b \<longleftrightarrow> f AND b \<noteq> 0"

text \<open>\<^verbatim>\<open>BIT_TEST (addr[b >> 3], 0x80 >> (b & 0x07))\<close>: bit \<open>b\<close> of an address, counted from
  the most significant bit of the first byte.\<close>

definition addr_bit :: "8 word list \<Rightarrow> nat \<Rightarrow> bool" where
  "addr_bit addr b \<longleftrightarrow> BIT_TEST (addr ! (b div 8)) (drop_bit (b mod 8) 0x80)"


definition bgpstream_patricia_get_head ::
  "bgpstream_patricia_tree_t \<Rightarrow> bgpstream_addr_version_t \<Rightarrow> nat option" where
  "bgpstream_patricia_get_head pt v =
     (case v of BGPSTREAM_ADDR_VERSION_IPV4 \<Rightarrow> head4 pt
              | BGPSTREAM_ADDR_VERSION_IPV6 \<Rightarrow> head6 pt
              | BGPSTREAM_ADDR_VERSION_UNKNOWN \<Rightarrow> None)"

definition bgpstream_patricia_set_head ::
  "bgpstream_patricia_tree_t \<Rightarrow> bgpstream_addr_version_t \<Rightarrow> nat option \<Rightarrow> bgpstream_patricia_tree_t" where
  "bgpstream_patricia_set_head pt v n =
     (case v of BGPSTREAM_ADDR_VERSION_IPV4 \<Rightarrow> pt\<lparr>head4 := n\<rparr>
              | BGPSTREAM_ADDR_VERSION_IPV6 \<Rightarrow> pt\<lparr>head6 := n\<rparr>
              | BGPSTREAM_ADDR_VERSION_UNKNOWN \<Rightarrow> pt)"

text \<open>Allocation takes the next free address and does not fail. A new prefix node is
  counted in the active nodes of its family; a glue node is zeroed and not counted.\<close>

definition bgpstream_patricia_node_create ::
  "bgpstream_patricia_tree_t \<Rightarrow> bgpstream_pfx_t \<Rightarrow> bgpstream_patricia_tree_t \<times> nat" where
  "bgpstream_patricia_node_create pt pfx =
     (let pt1 = (if pfx_version pfx = BGPSTREAM_ADDR_VERSION_IPV4
                 then pt\<lparr>ipv4_active_nodes := ipv4_active_nodes pt + 1\<rparr>
                 else pt\<lparr>ipv6_active_nodes := ipv6_active_nodes pt + 1\<rparr>)
      in (pt1\<lparr>heap := heap pt1 @
               [\<lparr>node_bit = mask_len pfx, node_prefix = pfx, node_l = None, node_r = None,
                 node_parent = None, node_user = None\<rparr>]\<rparr>,
          length (heap pt)))"

definition bgpstream_patricia_gluenode_create ::
  "bgpstream_patricia_tree_t \<Rightarrow> bgpstream_patricia_tree_t \<times> nat" where
  "bgpstream_patricia_gluenode_create pt =
     (pt\<lparr>heap := heap pt @
          [\<lparr>node_bit = 0,
            node_prefix = \<lparr>pfx_version = BGPSTREAM_ADDR_VERSION_UNKNOWN,
                            pfx_addr = replicate 16 0, mask_len = 0\<rparr>,
            node_l = None, node_r = None, node_parent = None, node_user = None\<rparr>]\<rparr>,
      length (heap pt))"

definition is_glue :: "bgpstream_patricia_node_t \<Rightarrow> bool" where
  "is_glue n \<longleftrightarrow> pfx_version (node_prefix n) = BGPSTREAM_ADDR_VERSION_UNKNOWN"

text \<open>The side an address takes at a node, as the insertion tests it: right when the bit
  of the node is below \<^verbatim>\<open>BGPSTREAM_PATRICIA_MAXBITS\<close> and set in the address.\<close>

definition goes_right :: "8 word list \<Rightarrow> nat \<Rightarrow> bool" where
  "goes_right addr b \<longleftrightarrow> b < BGPSTREAM_PATRICIA_MAXBITS \<and> addr_bit addr b"

text \<open>
  The three pointer-chasing loops. Each may fail to return on a heap that is not a tree
  (a cycle, or a pointer to no node): \<open>None\<close> stands for that.
\<close>

partial_function (option) insert_descend ::
  "bgpstream_patricia_node_t list \<Rightarrow> 8 word list \<Rightarrow> nat \<Rightarrow> nat \<Rightarrow> nat option" where
  "insert_descend h addr bitlen n =
     (if n < length h then
        (if node_bit (h ! n) < bitlen \<or> is_glue (h ! n) then
           (if goes_right addr (node_bit (h ! n))
            then (case node_r (h ! n) of None \<Rightarrow> Some n
                  | Some c \<Rightarrow> insert_descend h addr bitlen c)
            else (case node_l (h ! n) of None \<Rightarrow> Some n
                  | Some c \<Rightarrow> insert_descend h addr bitlen c))
         else Some n)
      else None)"

partial_function (option) insert_ascend ::
  "bgpstream_patricia_node_t list \<Rightarrow> nat \<Rightarrow> nat \<Rightarrow> nat option" where
  "insert_ascend h differ_bit n =
     (if n < length h then
        (case node_parent (h ! n) of
           None \<Rightarrow> Some n
         | Some p \<Rightarrow>
             if p < length h then
               (if node_bit (h ! p) \<ge> differ_bit then insert_ascend h differ_bit p else Some n)
             else None)
      else None)"


text \<open>The search for the first bit in which two addresses differ, below \<open>check_bit\<close>.\<close>

function first_set_bit :: "8 word \<Rightarrow> nat \<Rightarrow> nat" where
  "first_set_bit r j =
     (if j < 8 then (if BIT_TEST r (drop_bit j 0x80) then j else first_set_bit r (Suc j)) else j)"
  by pat_completeness auto
termination
  by (relation "measure (\<lambda>(r, j). 8 - j)") auto

function differ_loop :: "8 word list \<Rightarrow> 8 word list \<Rightarrow> nat \<Rightarrow> nat \<Rightarrow> nat \<Rightarrow> abort + nat" where
  "differ_loop addr test_addr check_bit i differ_bit =
     (if i * 8 < check_bit then
        (let r = (addr ! i) XOR (test_addr ! i) in
         if r = 0 then differ_loop addr test_addr check_bit (Suc i) ((i + 1) * 8)
         else (let j = first_set_bit r 0
               in if j < 8 then Inr (i * 8 + j) else Inl ASSERTION_FAILED))
      else Inr differ_bit)"
  by pat_completeness auto
termination
  by (relation "measure (\<lambda>(addr, test_addr, check_bit, i, differ_bit). check_bit - i * 8)") auto

declare first_set_bit.simps [simp del] differ_loop.simps [simp del]

definition find_differ_bit :: "8 word list \<Rightarrow> 8 word list \<Rightarrow> nat \<Rightarrow> abort + nat" where
  "find_differ_bit addr test_addr check_bit =
     (case differ_loop addr test_addr check_bit 0 0 of
        Inl a \<Rightarrow> Inl a
      | Inr differ_bit \<Rightarrow> Inr (if differ_bit > check_bit then check_bit else differ_bit))"


text \<open>The tail that the PARENT and the GLUE case share: \<open>upper\<close> takes the place of
  \<open>a\<close> under the parent of \<open>a\<close>, or as the head, and becomes the parent of \<open>a\<close>.\<close>

definition replace_child ::
  "bgpstream_patricia_node_t list \<Rightarrow> nat \<Rightarrow> nat \<Rightarrow> nat \<Rightarrow> bgpstream_patricia_node_t list" where
  "replace_child h p old new =
     (if node_r (h ! p) = Some old then h[p := (h ! p)\<lparr>node_r := Some new\<rparr>]
      else h[p := (h ! p)\<lparr>node_l := Some new\<rparr>])"

definition attach_above ::
  "bgpstream_patricia_tree_t \<Rightarrow> bgpstream_addr_version_t \<Rightarrow> nat \<Rightarrow> nat \<Rightarrow>
   abort + bgpstream_patricia_tree_t" where
  "attach_above pt v a upper =
     (case node_parent (heap pt ! a) of
        None \<Rightarrow>
          if bgpstream_patricia_get_head pt v = Some a
          then (let pt1 = bgpstream_patricia_set_head pt v (Some upper)
                in Inr (pt1\<lparr>heap := (heap pt1)[a := (heap pt1 ! a)\<lparr>node_parent := Some upper\<rparr>]\<rparr>))
          else Inl ASSERTION_FAILED
      | Some p \<Rightarrow>
          (let h1 = replace_child (heap pt) p a upper
           in Inr (pt\<lparr>heap := h1[a := (h1 ! a)\<lparr>node_parent := Some upper\<rparr>]\<rparr>)))"

definition insert_child ::
  "bgpstream_patricia_tree_t \<Rightarrow> 8 word list \<Rightarrow> nat \<Rightarrow> nat \<Rightarrow> abort + bgpstream_patricia_tree_t" where
  "insert_child pt addr a new =
     (let h1 = (heap pt)[new := (heap pt ! new)\<lparr>node_parent := Some a\<rparr>]
      in if goes_right addr (node_bit (h1 ! a))
         then (if node_r (h1 ! a) = None
               then Inr (pt\<lparr>heap := h1[a := (h1 ! a)\<lparr>node_r := Some new\<rparr>]\<rparr>)
               else Inl ASSERTION_FAILED)
         else (if node_l (h1 ! a) = None
               then Inr (pt\<lparr>heap := h1[a := (h1 ! a)\<lparr>node_l := Some new\<rparr>]\<rparr>)
               else Inl ASSERTION_FAILED))"

definition insert_parent ::
  "bgpstream_patricia_tree_t \<Rightarrow> bgpstream_addr_version_t \<Rightarrow> 8 word list \<Rightarrow> nat \<Rightarrow> nat \<Rightarrow>
   nat \<Rightarrow> abort + bgpstream_patricia_tree_t" where
  "insert_parent pt v test_addr bitlen a new =
     (let h = heap pt;
          h1 = (if goes_right test_addr bitlen
                then h[new := (h ! new)\<lparr>node_r := Some a\<rparr>]
                else h[new := (h ! new)\<lparr>node_l := Some a\<rparr>]);
          h2 = h1[new := (h1 ! new)\<lparr>node_parent := node_parent (h1 ! a)\<rparr>]
      in attach_above (pt\<lparr>heap := h2\<rparr>) v a new)"

definition insert_glue ::
  "bgpstream_patricia_tree_t \<Rightarrow> bgpstream_addr_version_t \<Rightarrow> 8 word list \<Rightarrow> nat \<Rightarrow> nat \<Rightarrow>
   nat \<Rightarrow> abort + bgpstream_patricia_tree_t" where
  "insert_glue pt0 v addr differ_bit a new =
     (let (pt, glue_node) = bgpstream_patricia_gluenode_create pt0;
          h = heap pt;
          h1 = h[glue_node := (h ! glue_node)\<lparr>node_bit := differ_bit\<rparr>];
          h2 = h1[glue_node := (h1 ! glue_node)\<lparr>node_parent := node_parent (h1 ! a)\<rparr>];
          h3 = (if goes_right addr differ_bit
                then h2[glue_node := (h2 ! glue_node)\<lparr>node_r := Some new, node_l := Some a\<rparr>]
                else h2[glue_node := (h2 ! glue_node)\<lparr>node_r := Some a, node_l := Some new\<rparr>]);
          h4 = h3[new := (h3 ! new)\<lparr>node_parent := Some glue_node\<rparr>]
      in attach_above (pt\<lparr>heap := h4\<rparr>) v a glue_node)"

definition insert_at ::
  "bgpstream_patricia_tree_t \<Rightarrow> bgpstream_pfx_t \<Rightarrow> 8 word list \<Rightarrow> nat \<Rightarrow> nat \<Rightarrow>
   abort + bgpstream_patricia_tree_t \<times> nat" where
  "insert_at pt pfx test_addr differ_bit a =
     (let v = pfx_version pfx; bitlen = mask_len pfx; addr = pfx_addr pfx; h = heap pt in
      if differ_bit = bitlen \<and> node_bit (h ! a) = bitlen then
        (if \<not> is_glue (h ! a) then Inr (pt, a)
         else Inr (pt\<lparr>heap := h[a := (h ! a)\<lparr>node_prefix := pfx\<rparr>]\<rparr>, a))
      else
        (let (pt1, new_node) = bgpstream_patricia_node_create pt pfx in
         if node_bit (h ! a) = differ_bit then
           (case insert_child pt1 addr a new_node of
              Inl e \<Rightarrow> Inl e | Inr pt2 \<Rightarrow> Inr (pt2, new_node))
         else if bitlen = differ_bit then
           (case insert_parent pt1 v test_addr bitlen a new_node of
              Inl e \<Rightarrow> Inl e | Inr pt2 \<Rightarrow> Inr (pt2, new_node))
         else
           (case insert_glue pt1 v addr differ_bit a new_node of
              Inl e \<Rightarrow> Inl e | Inr pt2 \<Rightarrow> Inr (pt2, new_node))))"

definition bgpstream_patricia_tree_insert ::
  "bgpstream_patricia_tree_t \<Rightarrow> bgpstream_pfx_t \<Rightarrow>
   (abort + bgpstream_patricia_tree_t \<times> nat) option" where
  "bgpstream_patricia_tree_insert pt pfx =
     (if \<not> mask_len pfx \<le> BGPSTREAM_PATRICIA_MAXBITS
         \<or> pfx_version pfx = BGPSTREAM_ADDR_VERSION_UNKNOWN
      then Some (Inl ASSERTION_FAILED)
      else
        (case bgpstream_patricia_get_head pt (pfx_version pfx) of
           None \<Rightarrow>
             (let (pt1, new_node) = bgpstream_patricia_node_create pt pfx
              in Some (Inr (bgpstream_patricia_set_head pt1 (pfx_version pfx) (Some new_node),
                            new_node)))
         | Some root \<Rightarrow>
             (case insert_descend (heap pt) (pfx_addr pfx) (mask_len pfx) root of
                None \<Rightarrow> None
              | Some s \<Rightarrow>
                  if is_glue (heap pt ! s) then Some (Inl ASSERTION_FAILED)
                  else
                    (let test_addr = pfx_addr (node_prefix (heap pt ! s));
                         check_bit = (if node_bit (heap pt ! s) < mask_len pfx
                                      then node_bit (heap pt ! s) else mask_len pfx)
                     in case find_differ_bit (pfx_addr pfx) test_addr check_bit of
                          Inl e \<Rightarrow> Some (Inl e)
                        | Inr differ_bit \<Rightarrow>
                            (case insert_ascend (heap pt) differ_bit s of
                               None \<Rightarrow> None
                             | Some a \<Rightarrow> Some (insert_at pt pfx test_addr differ_bit a))))))"


definition bgpstream_patricia_tree_create :: bgpstream_patricia_tree_t where
  "bgpstream_patricia_tree_create =
     \<lparr>head4 = None, head6 = None, ipv4_active_nodes = 0, ipv6_active_nodes = 0, heap = []\<rparr>"

subsection \<open>Predicates on trees\<close>

text \<open>Two addresses agree on their first \<open>n\<close> bits.\<close>

definition agree :: "8 word list \<Rightarrow> 8 word list \<Rightarrow> nat \<Rightarrow> bool" where
  "agree addr dest n \<longleftrightarrow> (\<forall>b<n. addr_bit addr b = addr_bit dest b)"

text \<open>The last statement of the search for the first differing bit.\<close>

definition clamp :: "nat \<Rightarrow> nat \<Rightarrow> nat" where
  "clamp check_bit d = (if d > check_bit then check_bit else d)"

text \<open>
  The child that the descent for an address takes at a node, and the nodes that the descent
  reaches from a root while a condition \<open>C\<close> on the visited nodes tells it to go on.
\<close>

definition child_towards ::
  "bgpstream_patricia_node_t list \<Rightarrow> 8 word list \<Rightarrow> nat \<Rightarrow> nat option" where
  "child_towards h addr n =
     (if goes_right addr (node_bit (h ! n)) then node_r (h ! n) else node_l (h ! n))"

inductive dpath ::
  "bgpstream_patricia_node_t list \<Rightarrow> 8 word list \<Rightarrow> (bgpstream_patricia_node_t \<Rightarrow> bool) \<Rightarrow>
   nat \<Rightarrow> nat \<Rightarrow> bool"
  for h addr C root where
  dpath_root: "root < length h \<Longrightarrow> dpath h addr C root root"
| dpath_step: "dpath h addr C root m \<Longrightarrow> C (h ! m) \<Longrightarrow> child_towards h addr m = Some c \<Longrightarrow>
     c < length h \<Longrightarrow> dpath h addr C root c"

text \<open>
  The shape of a tree in the heap: a child lies in the heap, points back to its parent and
  tests a later bit; the two children of a node differ; every address has the 16 bytes of
  its storage; a head has no parent, and the two families do not share their head.
\<close>

definition wf_heap :: "bgpstream_patricia_node_t list \<Rightarrow> bool" where
  "wf_heap h \<longleftrightarrow>
     (\<forall>n<length h. \<forall>c. node_l (h ! n) = Some c \<or> node_r (h ! n) = Some c \<longrightarrow>
        c < length h \<and> node_parent (h ! c) = Some n \<and> node_bit (h ! n) < node_bit (h ! c)) \<and>
     (\<forall>n<length h. \<forall>c. node_l (h ! n) = Some c \<longrightarrow> node_r (h ! n) \<noteq> Some c) \<and>
     (\<forall>n<length h. length (pfx_addr (node_prefix (h ! n))) = 16)"

definition wf_tree :: "bgpstream_patricia_tree_t \<Rightarrow> bool" where
  "wf_tree pt \<longleftrightarrow>
     wf_heap (heap pt) \<and>
     (\<forall>x. head4 pt = Some x \<or> head6 pt = Some x \<longrightarrow>
        x < length (heap pt) \<and> node_parent (heap pt ! x) = None) \<and>
     (\<forall>x. head4 pt = Some x \<longrightarrow> head6 pt \<noteq> Some x)"

abbreviation keep_going :: "nat \<Rightarrow> bgpstream_patricia_node_t \<Rightarrow> bool" where
  "keep_going bitlen \<equiv> (\<lambda>nd. node_bit nd < bitlen \<or> is_glue nd)"


text \<open>The shape at one node; and at a node allocated by an insertion, before the node
  \<open>a\<close> below it points back to it.\<close>

definition local_ok :: "bgpstream_patricia_node_t list \<Rightarrow> nat \<Rightarrow> bool" where
  "local_ok h m \<longleftrightarrow>
     (\<forall>c. node_l (h ! m) = Some c \<or> node_r (h ! m) = Some c \<longrightarrow>
        c < length h \<and> node_parent (h ! c) = Some m \<and> node_bit (h ! m) < node_bit (h ! c)) \<and>
     (\<forall>c. node_l (h ! m) = Some c \<longrightarrow> node_r (h ! m) \<noteq> Some c) \<and>
     length (pfx_addr (node_prefix (h ! m))) = 16"

definition new_ok :: "bgpstream_patricia_node_t list \<Rightarrow> nat \<Rightarrow> nat \<Rightarrow> nat \<Rightarrow> nat \<Rightarrow> bool" where
  "new_ok h0 k a upper m \<longleftrightarrow>
     (\<forall>c. node_l (h0 ! m) = Some c \<or> node_r (h0 ! m) = Some c \<longrightarrow>
        (c = a \<and> m = upper) \<or>
        (k \<le> c \<and> c < length h0 \<and> node_parent (h0 ! c) = Some m \<and>
         node_bit (h0 ! m) < node_bit (h0 ! c))) \<and>
     (\<forall>c. node_l (h0 ! m) = Some c \<longrightarrow> node_r (h0 ! m) \<noteq> Some c) \<and>
     length (pfx_addr (node_prefix (h0 ! m))) = 16"

text \<open>The trees that insertions build from the empty tree.\<close>

inductive built :: "bgpstream_patricia_tree_t \<Rightarrow> bool" where
  built_create: "built bgpstream_patricia_tree_create"
| built_insert: "built pt \<Longrightarrow> length (pfx_addr pfx) = 16 \<Longrightarrow>
     bgpstream_patricia_tree_insert pt pfx = Some (Inr (pt', n)) \<Longrightarrow> built pt'"


subsection \<open>An example tree\<close>





section \<open>Origin extraction: properties\<close>

text \<open>
  C5 (as the code has it). The empty path gives \<open>ORIGIN_LOCAL\<close>. A path whose last
  segment is the single AS number \<open>a\<close> gives \<open>a\<close> itself when \<open>a \<noteq> 0\<close>, and
  \<open>ORIGIN_LOCAL\<close> when \<open>a = 0\<close>; nothing filters the reserved band. A path whose last
  segment is a set or a confederation gives \<open>ORIGIN_SET_OR_CONFED\<close> (the reserved base
  being such that this value is not 0).
\<close>

theorem get_origin_asn_cases:
  "get_origin_asn B [] = ROUTINGTABLES_LOCAL_ORIGIN_ASN B \<and>
   (a \<noteq> 0 \<longrightarrow> get_origin_asn B (segs @ [SEG_ASN a]) = a) \<and>
   get_origin_asn B (segs @ [SEG_ASN 0]) = ROUTINGTABLES_LOCAL_ORIGIN_ASN B \<and>
   ((\<forall>x. s \<noteq> SEG_ASN x) \<and> B + 1 \<noteq> 0 \<longrightarrow>
      get_origin_asn B (segs @ [s]) = ROUTINGTABLES_CONFSET_ORIGIN_ASN B)"
  by (cases s) (simp_all add: get_origin_asn_def ROUTINGTABLES_CONFSET_ORIGIN_ASN_def)

theorem get_origin_asn_cases_witness:
  "get_origin_asn 4200000000 [] = 4200000000 \<and>
   get_origin_asn 4200000000 ([SEG_ASN 3356] @ [SEG_ASN 65001]) = 65001 \<and>
   get_origin_asn 4200000000 ([SEG_ASN 3356] @ [SEG_ASN 0]) = 4200000000 \<and>
   get_origin_asn 4200000000 ([SEG_ASN 3356] @ [SEG_SET [65001, 65002]]) = 4200000001"
  using get_origin_asn_cases [of 4200000000 65001 "[SEG_ASN 3356]" "SEG_SET [65001, 65002]"]
  by (simp add: ROUTINGTABLES_LOCAL_ORIGIN_ASN_def ROUTINGTABLES_CONFSET_ORIGIN_ASN_def)

text \<open>
  The claim as first stated fails twice: the single AS number 0 is not returned as
  itself, and an AS number of the reserved band is returned unchanged, here the very
  value that encodes \<open>ORIGIN_DOWN\<close>.
\<close>

theorem get_origin_asn_reserved_counterexample:
  "get_origin_asn 4200000000 [SEG_ASN 4200000002] = ROUTINGTABLES_DOWN_ORIGIN_ASN 4200000000 \<and>
   get_origin_asn 4200000000 [SEG_ASN 0] \<noteq> 0"
  by (simp add: get_origin_asn_def ROUTINGTABLES_DOWN_ORIGIN_ASN_def
      ROUTINGTABLES_LOCAL_ORIGIN_ASN_def)

section \<open>Reading the tables after a write\<close>

lemma map_of_set_peer:
  "map_of (view_peers (set_peer k p rt)) k' = (if k' = k then Some p else map_of (view_peers rt) k')"
  by (simp add: set_peer_def update_conv')

lemma map_of_set_pfx_peer:
  "map_of (view_pfx_peers (set_pfx_peer k p rt)) k' = (if k' = k then Some p else map_of (view_pfx_peers rt) k')"
  by (simp add: set_pfx_peer_def update_conv')

lemma set_peer_other [simp]:
  "view_pfx_peers (set_peer k p rt) = view_pfx_peers rt"
  "peersigns (set_peer k p rt) = peersigns rt"
  "collectors (set_peer k p rt) = collectors rt"
  by (simp_all add: set_peer_def)

lemma set_pfx_peer_other [simp]:
  "view_peers (set_pfx_peer k p rt) = view_peers rt"
  "peersigns (set_pfx_peer k p rt) = peersigns rt"
  "collectors (set_pfx_peer k p rt) = collectors rt"
  by (simp_all add: set_pfx_peer_def)

section \<open>RIB rows\<close>

text \<open>
  C6. A RIB row for peer \<open>p\<close> at \<open>ts\<close> sets \<open>uc_rib_start_ts(p)\<close> to \<open>ts\<close> only if it
  was 0, always sets \<open>uc_rib_end_ts(p)\<close> to \<open>ts\<close>, sets the \<open>uc_delta_ts\<close> of the cell to
  \<open>ts - uc_rib_start_ts(p)\<close> and its \<open>uc_origin_asn\<close> to the extracted origin. The live
  fields keep their values: \<open>last_ts\<close>, \<open>origin_asn\<close> and the active flag of the cell (a
  cell created by the row has none: it is inactive, with \<open>last_ts\<close> 0 and origin
  \<open>ORIGIN_DOWN\<close>), and \<open>view_state\<close> and \<open>fsm_state\<close> of the peer. No other peer and no
  other cell changes.
\<close>

theorem apply_rib_message_effect:
  assumes "peer_id \<noteq> 0" and "map_of (view_peers rt) peer_id = Some p"
  shows "\<exists>rt' p' pp'. apply_rib_message B rt c peer_id elem ts = Inr rt' \<and>
           map_of (view_peers rt') peer_id = Some p' \<and>
           map_of (view_pfx_peers rt') (elem_prefix elem, peer_id) = Some pp' \<and>
           bgp_time_uc_rib_start p' =
             (if bgp_time_uc_rib_start p = 0 then ts else bgp_time_uc_rib_start p) \<and>
           bgp_time_uc_rib_end p' = ts \<and>
           bgp_time_uc_delta_ts pp' = ts - bgp_time_uc_rib_start p' \<and>
           uc_origin_asn pp' = get_origin_asn B (aspath elem) \<and>
           peer_state p' = peer_state p \<and> bgp_fsm_state p' = bgp_fsm_state p \<and>
           (case map_of (view_pfx_peers rt) (elem_prefix elem, peer_id) of
              Some pp \<Rightarrow> bgp_time_last_ts pp' = bgp_time_last_ts pp \<and> orig_asn pp' = orig_asn pp \<and>
                         pfx_peer_state pp' = pfx_peer_state pp
            | None \<Rightarrow> bgp_time_last_ts pp' = 0 \<and> orig_asn pp' = ROUTINGTABLES_DOWN_ORIGIN_ASN B \<and>
                         pfx_peer_state pp' = BGPWATCHER_VIEW_FIELD_INACTIVE) \<and>
           (\<forall>k. k \<noteq> (elem_prefix elem, peer_id) \<longrightarrow>
                  map_of (view_pfx_peers rt') k = map_of (view_pfx_peers rt) k) \<and>
           (\<forall>q. q \<noteq> peer_id \<longrightarrow> map_of (view_peers rt') q = map_of (view_peers rt) q)"
  using assms
  by (auto simp: apply_rib_message_def Let_def map_of_set_peer map_of_set_pfx_peer
      perpfx_perpeer_info_create_def split: option.splits)

theorem apply_rib_message_effect_witness:
  "map_of (view_peers (ex_rt ex_peer_established)) 1 = Some ex_peer_established \<and>
   (\<exists>rt' p' pp'. apply_rib_message 4200000000 (ex_rt ex_peer_established) new_collector 1
                    (ex_elem BGPSTREAM_ELEM_TYPE_RIB) 525 = Inr rt' \<and>
      map_of (view_peers rt') 1 = Some p' \<and>
      map_of (view_pfx_peers rt') (ex_pfx, 1) = Some pp' \<and>
      bgp_time_uc_rib_start p' = 525 \<and> bgp_time_uc_rib_end p' = 525 \<and>
      bgp_time_uc_delta_ts pp' = 0 \<and> uc_origin_asn pp' = 65001 \<and>
      peer_state p' = BGPWATCHER_VIEW_FIELD_ACTIVE \<and> bgp_time_last_ts pp' = 0)"
  using apply_rib_message_effect [where peer_id = 1 and rt = "ex_rt ex_peer_established"
      and p = ex_peer_established and B = 4200000000 and c = new_collector
      and elem = "ex_elem BGPSTREAM_ELEM_TYPE_RIB" and ts = 525]
  by (auto simp: ex_rt_def ex_peer_established_def ex_elem_def perpeer_info_create_def
      get_origin_asn_def)

section \<open>Peer-state updates that keep the activity of the peer\<close>

text \<open>
  C7 (as the code has it). A peer-state update at \<open>ts\<close> that takes the peer neither from
  established to something else nor from something else to established leaves the peer in
  the FSM state \<open>new\<close>. When \<open>new\<close> differs from the prior FSM state, both
  \<open>ref_rib_start_ts\<close> and \<open>ref_rib_end_ts\<close> become \<open>ts\<close>; when \<open>new\<close> is the prior state
  they keep their values. Only the state-message counter of the peer changes besides, and
  no pfx-peer changes. (The peer is active exactly when established, as the closing
  assertions of the function demand.)
\<close>

theorem apply_state_update_same_activity:
  assumes "peer_id \<noteq> 0" and "map_of (view_peers rt) peer_id = Some p"
    and "\<not> (bgp_fsm_state p = BGPSTREAM_ELEM_PEERSTATE_ESTABLISHED \<and> new \<noteq> BGPSTREAM_ELEM_PEERSTATE_ESTABLISHED)"
    and "\<not> (bgp_fsm_state p \<noteq> BGPSTREAM_ELEM_PEERSTATE_ESTABLISHED \<and> new = BGPSTREAM_ELEM_PEERSTATE_ESTABLISHED)"
    and "peer_state p = BGPWATCHER_VIEW_FIELD_ACTIVE \<longleftrightarrow> bgp_fsm_state p = BGPSTREAM_ELEM_PEERSTATE_ESTABLISHED"
  shows "\<exists>rt' p'. apply_state_update B rt c peer_id new ts = Inr rt' \<and>
           map_of (view_peers rt') peer_id = Some p' \<and>
           bgp_fsm_state p' = new \<and>
           (bgp_fsm_state p \<noteq> new \<longrightarrow> bgp_time_ref_rib_start p' = ts \<and> bgp_time_ref_rib_end p' = ts) \<and>
           (bgp_fsm_state p = new \<longrightarrow> bgp_time_ref_rib_start p' = bgp_time_ref_rib_start p \<and>
                bgp_time_ref_rib_end p' = bgp_time_ref_rib_end p) \<and>
           peer_state p' = peer_state p \<and>
           state_messages_cnt p' = state_messages_cnt p + 1 \<and>
           view_pfx_peers rt' = view_pfx_peers rt"
proof (cases "bgp_fsm_state p = new")
  case True
  with assms show ?thesis
    by (cases "peer_state p") (auto simp: apply_state_update_def map_of_set_peer Let_def)
next
  case False
  with assms show ?thesis
    by (cases "peer_state p") (auto simp: apply_state_update_def map_of_set_peer Let_def)
qed


theorem apply_state_update_same_activity_witness:
  "map_of (view_peers (ex_rt perpeer_info_create)) 1 = Some perpeer_info_create \<and>
   (\<exists>rt' p'. apply_state_update 4200000000 (ex_rt perpeer_info_create) new_collector 1
                 BGPSTREAM_ELEM_PEERSTATE_IDLE 200 = Inr rt' \<and>
      map_of (view_peers rt') 1 = Some p' \<and>
      bgp_fsm_state p' = BGPSTREAM_ELEM_PEERSTATE_IDLE \<and>
      bgp_time_ref_rib_start p' = 200 \<and> bgp_time_ref_rib_end p' = 200)"
  using apply_state_update_same_activity [where peer_id = 1
      and rt = "ex_rt perpeer_info_create" and p = perpeer_info_create
      and new = BGPSTREAM_ELEM_PEERSTATE_IDLE and ts = 200 and B = 4200000000
      and c = new_collector]
  by (auto simp: ex_rt_def perpeer_info_create_def)

text \<open>
  The claim as first stated fails when the update repeats the state of the peer: an
  established peer whose reference RIB started at 100 is told at 200 that it is
  established, and its reference times stay at 100.
\<close>

theorem apply_state_update_same_state_counterexample:
  "(case apply_state_update 4200000000 (ex_rt ex_peer_established) new_collector 1
           BGPSTREAM_ELEM_PEERSTATE_ESTABLISHED 200 of
      Inl a \<Rightarrow> None
    | Inr rt' \<Rightarrow> map_option bgp_time_ref_rib_start (map_of (view_peers rt') 1)) = Some 100"
  by (simp add: apply_state_update_def ex_rt_def ex_peer_established_def
      perpeer_info_create_def set_peer_def)

section \<open>An update for a peer of unknown state and without a RIB\<close>

text \<open>
  C4 (as the code has it). An announcement or withdrawal at \<open>ts\<close> with
  \<open>ts \<ge> cell.last_ts\<close> reaches a peer that is inactive, of unknown FSM state and with
  \<open>uc_rib_start_ts = 0\<close>; the cell is inactive or new. Afterwards the cell has
  \<open>last_ts = 0\<close> and origin \<open>ORIGIN_DOWN\<close>, cell and peer are inactive, and the
  announcement and withdrawal counters of the cell are back to their prior values. The
  counter of the peer (announcements or withdrawals received) is not taken back: it stays
  incremented.
\<close>

theorem apply_prefix_update_unknown_peer_reverts:
  assumes "peer_id \<noteq> 0" and "map_of (view_peers rt) peer_id = Some p"
    and "peer_state p = BGPWATCHER_VIEW_FIELD_INACTIVE"
    and "bgp_fsm_state p = BGPSTREAM_ELEM_PEERSTATE_UNKNOWN"
    and "bgp_time_uc_rib_start p = 0"
    and "case map_of (view_pfx_peers rt) (elem_prefix elem, peer_id) of
           None \<Rightarrow> True
         | Some pp \<Rightarrow> ts \<ge> bgp_time_last_ts pp \<and> pfx_peer_state pp = BGPWATCHER_VIEW_FIELD_INACTIVE"
  shows "\<exists>rt' p' pp'. apply_prefix_update B rt c peer_id elem ts = Inr rt' \<and>
           map_of (view_peers rt') peer_id = Some p' \<and>
           map_of (view_pfx_peers rt') (elem_prefix elem, peer_id) = Some pp' \<and>
           bgp_time_last_ts pp' = 0 \<and> orig_asn pp' = ROUTINGTABLES_DOWN_ORIGIN_ASN B \<and>
           pfx_peer_state pp' = BGPWATCHER_VIEW_FIELD_INACTIVE \<and>
           peer_state p' = BGPWATCHER_VIEW_FIELD_INACTIVE \<and>
           bgp_fsm_state p' = BGPSTREAM_ELEM_PEERSTATE_UNKNOWN \<and>
           announcements pp' =
             (case map_of (view_pfx_peers rt) (elem_prefix elem, peer_id) of
                None \<Rightarrow> 0 | Some pp \<Rightarrow> announcements pp) \<and>
           withdrawals pp' =
             (case map_of (view_pfx_peers rt) (elem_prefix elem, peer_id) of
                None \<Rightarrow> 0 | Some pp \<Rightarrow> withdrawals pp) \<and>
           pfx_announcements_cnt p' =
             (if elem_type elem = BGPSTREAM_ELEM_TYPE_ANNOUNCEMENT
              then pfx_announcements_cnt p + 1 else pfx_announcements_cnt p) \<and>
           pfx_withdrawals_cnt p' =
             (if elem_type elem = BGPSTREAM_ELEM_TYPE_ANNOUNCEMENT
              then pfx_withdrawals_cnt p else pfx_withdrawals_cnt p + 1)"
proof (cases "map_of (view_pfx_peers rt) (elem_prefix elem, peer_id)")
  case None
  with assms show ?thesis
    by (auto simp: apply_prefix_update_def apply_prefix_update_fields_def Let_def
        map_of_set_peer map_of_set_pfx_peer perpfx_perpeer_info_create_def
        update_peer_stats_def update_prefix_peer_stats_def)
next
  case (Some pp)
  with assms have "\<not> ts < bgp_time_last_ts pp"
    and "pfx_peer_state pp = BGPWATCHER_VIEW_FIELD_INACTIVE"
    by (simp_all add: not_less)
  with assms Some show ?thesis
    by (auto simp: apply_prefix_update_def apply_prefix_update_fields_def Let_def
        map_of_set_peer map_of_set_pfx_peer
        update_peer_stats_def update_prefix_peer_stats_def)
qed

theorem apply_prefix_update_unknown_peer_reverts_witness:
  "map_of (view_peers (ex_rt perpeer_info_create)) 1 = Some perpeer_info_create \<and>
   (\<exists>rt' p' pp'. apply_prefix_update 4200000000 (ex_rt perpeer_info_create) new_collector 1
                    (ex_elem BGPSTREAM_ELEM_TYPE_ANNOUNCEMENT) 700 = Inr rt' \<and>
      map_of (view_peers rt') 1 = Some p' \<and>
      map_of (view_pfx_peers rt') (ex_pfx, 1) = Some pp' \<and>
      bgp_time_last_ts pp' = 0 \<and> orig_asn pp' = 4200000002 \<and>
      announcements pp' = 0 \<and> pfx_announcements_cnt p' = 1)"
  using apply_prefix_update_unknown_peer_reverts [where peer_id = 1
      and rt = "ex_rt perpeer_info_create" and p = perpeer_info_create
      and elem = "ex_elem BGPSTREAM_ELEM_TYPE_ANNOUNCEMENT" and ts = 700 and B = 4200000000
      and c = new_collector]
  by (auto simp: ex_rt_def ex_elem_def perpeer_info_create_def ROUTINGTABLES_DOWN_ORIGIN_ASN_def)

text \<open>
  The claim as first stated fails on the counter of the peer: a new peer whose first
  element is an announcement at 700 ends with its announcement counter at 1, not 0.
\<close>

theorem apply_prefix_update_peer_counter_counterexample:
  "(case apply_prefix_update 4200000000 (ex_rt perpeer_info_create) new_collector 1
           (ex_elem BGPSTREAM_ELEM_TYPE_ANNOUNCEMENT) 700 of
      Inl a \<Rightarrow> None
    | Inr rt' \<Rightarrow> map_option pfx_announcements_cnt (map_of (view_peers rt') 1)) = Some 1 \<and>
   map_option pfx_announcements_cnt (map_of (view_peers (ex_rt perpeer_info_create)) 1) = Some 0"
  by (simp add: apply_prefix_update_def apply_prefix_update_fields_def Let_def ex_rt_def
      ex_elem_def perpeer_info_create_def perpfx_perpeer_info_create_def update_peer_stats_def
      update_prefix_peer_stats_def set_peer_def set_pfx_peer_def get_origin_asn_def ex_pfx_def)


section \<open>Idempotence of updates, the counters set aside\<close>

lemma map_update_entry:
  "map (\<lambda>e. (fst e, g (snd e))) (AList.update k v al) =
   AList.update k (g v) (map (\<lambda>e. (fst e, g (snd e))) al)"
  by (induction al) auto

lemma update_peer_stats_twice:
  "update_peer_stats (update_peer_stats p elem asn) elem asn = update_peer_stats p elem asn"
  by (simp add: update_peer_stats_def Let_def)

lemma update_peer_stats_fields [simp]:
  "peer_state (update_peer_stats p elem asn) = peer_state p"
  "bgp_fsm_state (update_peer_stats p elem asn) = bgp_fsm_state p"
  "bgp_time_uc_rib_start (update_peer_stats p elem asn) = bgp_time_uc_rib_start p"
  "pfx_announcements_cnt (update_peer_stats p elem asn) = pfx_announcements_cnt p"
  "pfx_withdrawals_cnt (update_peer_stats p elem asn) = pfx_withdrawals_cnt p"
  by (simp_all add: update_peer_stats_def Let_def)

lemma count_and_stats_fields [simp]:
  "peer_state (count_and_stats p elem asn) = peer_state p"
  "bgp_fsm_state (count_and_stats p elem asn) = bgp_fsm_state p"
  "bgp_time_uc_rib_start (count_and_stats p elem asn) = bgp_time_uc_rib_start p"
  by (simp_all add: count_and_stats_def count_update_def)

lemma erase_count_and_stats:
  "erase_peer_counters (count_and_stats p elem asn) =
   update_peer_stats (erase_peer_counters p) elem asn"
  by (simp add: count_and_stats_def count_update_def erase_peer_counters_def
      update_peer_stats_def Let_def)

lemma erase_count_and_stats_twice:
  "erase_peer_counters (count_and_stats (count_and_stats p elem asn) elem asn) =
   erase_peer_counters (count_and_stats p elem asn)"
  by (simp add: erase_count_and_stats update_peer_stats_twice)

lemma erase_peer_comes_up:
  "erase_peer_counters (count_and_stats (peer_comes_up ts p) elem asn) =
   peer_comes_up ts (erase_peer_counters (count_and_stats p elem asn))"
  by (simp add: count_and_stats_def count_update_def erase_peer_counters_def
      update_peer_stats_def Let_def peer_comes_up_def)

lemma erase_peer_comes_up':
  "erase_peer_counters (peer_comes_up ts p) = peer_comes_up ts (erase_peer_counters p)"
  by (simp add: erase_peer_counters_def peer_comes_up_def)

lemma peer_comes_up_fields [simp]:
  "peer_state (peer_comes_up ts p) = BGPWATCHER_VIEW_FIELD_ACTIVE"
  by (simp add: peer_comes_up_def)

lemma fields_idem:
  assumes "apply_prefix_update_fields B (count_and_stats p0 elem asn) pp0 elem asn ts = Inr (p1, pp1)"
  shows "\<exists>p2 pp2. apply_prefix_update_fields B (count_and_stats p1 elem asn) pp1 elem asn ts = Inr (p2, pp2) \<and>
           erase_peer_counters p2 = erase_peer_counters p1 \<and>
           erase_pfx_peer_counters pp2 = erase_pfx_peer_counters pp1"
proof (cases "ts < bgp_time_last_ts pp0")
  case True
  with assms have "p1 = count_and_stats p0 elem asn" and "pp1 = pp0"
    by (simp_all add: apply_prefix_update_fields_def)
  with True show ?thesis
    by (simp add: apply_prefix_update_fields_def erase_count_and_stats_twice)
next
  case late: False
  show ?thesis
  proof (cases "peer_state p0")
    case BGPWATCHER_VIEW_FIELD_ACTIVE
    with assms late have p1: "p1 = count_and_stats p0 elem asn"
      by (auto simp: apply_prefix_update_fields_def Let_def split: if_splits)
    from assms late BGPWATCHER_VIEW_FIELD_ACTIVE
    have "bgp_time_last_ts pp1 = ts"
      by (auto simp: apply_prefix_update_fields_def Let_def update_prefix_peer_stats_def
          split: if_splits)
    with assms late BGPWATCHER_VIEW_FIELD_ACTIVE p1 show ?thesis
      by (cases "pfx_peer_state pp0"; cases "elem_type elem")
        (auto simp: apply_prefix_update_fields_def Let_def update_prefix_peer_stats_def
          erase_count_and_stats_twice erase_pfx_peer_counters_def)
  next
    case BGPWATCHER_VIEW_FIELD_INACTIVE
    with assms late have cell: "pfx_peer_state pp0 = BGPWATCHER_VIEW_FIELD_INACTIVE"
      by (auto simp: apply_prefix_update_fields_def Let_def update_prefix_peer_stats_def
          split: if_splits)
    show ?thesis
    proof (cases "bgp_fsm_state p0 = BGPSTREAM_ELEM_PEERSTATE_UNKNOWN")
      case True
      with assms late BGPWATCHER_VIEW_FIELD_INACTIVE cell show ?thesis
        by (cases "bgp_time_uc_rib_start p0 = 0"; cases "elem_type elem = BGPSTREAM_ELEM_TYPE_ANNOUNCEMENT")
          (auto simp: apply_prefix_update_fields_def Let_def update_prefix_peer_stats_def
            erase_count_and_stats_twice erase_pfx_peer_counters_def)
    next
      case False
      with assms late BGPWATCHER_VIEW_FIELD_INACTIVE cell
      have p1: "p1 = peer_comes_up ts (count_and_stats p0 elem asn)"
        by (auto simp: apply_prefix_update_fields_def Let_def update_prefix_peer_stats_def
            peer_comes_up_def split: if_splits)
      from False assms late BGPWATCHER_VIEW_FIELD_INACTIVE cell p1 show ?thesis
        by (cases "elem_type elem")
          (auto simp: apply_prefix_update_fields_def Let_def update_prefix_peer_stats_def
             erase_peer_comes_up erase_peer_comes_up' erase_count_and_stats_twice
             erase_pfx_peer_counters_def)
    qed
  qed
qed


lemma fields_counters:
  assumes "apply_prefix_update_fields B p pp elem asn ts = Inr (p', pp')"
  shows "pfx_announcements_cnt p' = pfx_announcements_cnt p \<and>
         pfx_withdrawals_cnt p' = pfx_withdrawals_cnt p \<and>
         announcements pp' =
           (if elem_type elem = BGPSTREAM_ELEM_TYPE_ANNOUNCEMENT \<and> \<not> ts < bgp_time_last_ts pp \<and>
               \<not> (peer_state p = BGPWATCHER_VIEW_FIELD_INACTIVE \<and>
                  bgp_fsm_state p = BGPSTREAM_ELEM_PEERSTATE_UNKNOWN \<and> bgp_time_uc_rib_start p = 0)
            then announcements pp + 1 else announcements pp) \<and>
         withdrawals pp' =
           (if elem_type elem \<noteq> BGPSTREAM_ELEM_TYPE_ANNOUNCEMENT \<and> \<not> ts < bgp_time_last_ts pp \<and>
               \<not> (peer_state p = BGPWATCHER_VIEW_FIELD_INACTIVE \<and>
                  bgp_fsm_state p = BGPSTREAM_ELEM_PEERSTATE_UNKNOWN \<and> bgp_time_uc_rib_start p = 0)
            then withdrawals pp + 1 else withdrawals pp)"
proof (cases "ts < bgp_time_last_ts pp")
  case True
  with assms show ?thesis by (simp add: apply_prefix_update_fields_def)
next
  case False
  with assms show ?thesis
    by (cases "peer_state p"; cases "elem_type elem = BGPSTREAM_ELEM_TYPE_ANNOUNCEMENT")
      (auto simp: apply_prefix_update_fields_def Let_def update_prefix_peer_stats_def
        split: if_splits)
qed

lemma apply_prefix_update_Inr:
  assumes "apply_prefix_update B rt c peer_id elem ts = Inr rt1"
  obtains p0 p1 pp1 where "map_of (view_peers rt) peer_id = Some p0" and "peer_id \<noteq> 0"
    and "apply_prefix_update_fields B
           (count_and_stats p0 elem
              (if elem_type elem = BGPSTREAM_ELEM_TYPE_ANNOUNCEMENT
               then get_origin_asn B (aspath elem) else ROUTINGTABLES_DOWN_ORIGIN_ASN B))
           (case map_of (view_pfx_peers rt) (elem_prefix elem, peer_id) of
              None \<Rightarrow> perpfx_perpeer_info_create B
                        (if elem_type elem = BGPSTREAM_ELEM_TYPE_ANNOUNCEMENT
                         then get_origin_asn B (aspath elem) else ROUTINGTABLES_DOWN_ORIGIN_ASN B)
            | Some pp \<Rightarrow> pp) elem
           (if elem_type elem = BGPSTREAM_ELEM_TYPE_ANNOUNCEMENT
            then get_origin_asn B (aspath elem) else ROUTINGTABLES_DOWN_ORIGIN_ASN B) ts = Inr (p1, pp1)"
    and "rt1 = set_pfx_peer (elem_prefix elem, peer_id) pp1 (set_peer peer_id p1 rt)"
  using assms
  by (auto simp: apply_prefix_update_def Let_def count_and_stats_def count_update_def
      split: if_splits option.splits sum.splits)

lemma apply_prefix_update_eq:
  assumes "map_of (view_peers rt) peer_id = Some p0" and "peer_id \<noteq> 0"
    and "map_of (view_pfx_peers rt) (elem_prefix elem, peer_id) = Some pp0"
    and "apply_prefix_update_fields B
           (count_and_stats p0 elem
              (if elem_type elem = BGPSTREAM_ELEM_TYPE_ANNOUNCEMENT
               then get_origin_asn B (aspath elem) else ROUTINGTABLES_DOWN_ORIGIN_ASN B))
           pp0 elem
           (if elem_type elem = BGPSTREAM_ELEM_TYPE_ANNOUNCEMENT
            then get_origin_asn B (aspath elem) else ROUTINGTABLES_DOWN_ORIGIN_ASN B) ts = Inr (p1, pp1)"
  shows "apply_prefix_update B rt c peer_id elem ts =
           Inr (set_pfx_peer (elem_prefix elem, peer_id) pp1 (set_peer peer_id p1 rt))"
  using assms
  by (simp add: apply_prefix_update_def Let_def count_and_stats_def count_update_def)

lemma erase_set_twice:
  assumes "erase_peer_counters p2 = erase_peer_counters p1"
    and "erase_pfx_peer_counters pp2 = erase_pfx_peer_counters pp1"
  shows "erase_update_counters (set_pfx_peer k pp2 (set_peer i p2 (set_pfx_peer k pp1 (set_peer i p1 rt)))) =
         erase_update_counters (set_pfx_peer k pp1 (set_peer i p1 rt))"
  using assms
  by (simp add: erase_update_counters_def set_pfx_peer_def set_peer_def map_update_entry)

text \<open>
  C2 (as the code has it). When an announcement or withdrawal has been applied, applying
  the same element once more gives the same engine state but for two update counters,
  those of the peer and of the cell of the element: every other peer and every other cell
  is left as it was, counters included, as are the signatures and the collectors. The
  counter of the peer (announcements or withdrawals received) is incremented by each
  application, and the counter of the cell is incremented by each application that is
  neither suppressed as out of order (\<open>ts < cell.last_ts\<close>) nor reverted (peer inactive,
  of unknown state, without a RIB under construction).
\<close>

theorem apply_prefix_update_twice:
  assumes "apply_prefix_update B rt c peer_id elem ts = Inr rt1"
  shows "\<exists>rt2 p1 p2 pp1 pp2. apply_twice B rt c peer_id elem ts = Inr rt2 \<and>
           erase_update_counters rt2 = erase_update_counters rt1 \<and>
           (\<forall>i. i \<noteq> peer_id \<longrightarrow> map_of (view_peers rt2) i = map_of (view_peers rt1) i) \<and>
           (\<forall>k. k \<noteq> (elem_prefix elem, peer_id) \<longrightarrow>
                map_of (view_pfx_peers rt2) k = map_of (view_pfx_peers rt1) k) \<and>
           peersigns rt2 = peersigns rt1 \<and> collectors rt2 = collectors rt1 \<and>
           map_of (view_peers rt1) peer_id = Some p1 \<and>
           map_of (view_peers rt2) peer_id = Some p2 \<and>
           map_of (view_pfx_peers rt1) (elem_prefix elem, peer_id) = Some pp1 \<and>
           map_of (view_pfx_peers rt2) (elem_prefix elem, peer_id) = Some pp2 \<and>
           pfx_announcements_cnt p2 =
             (if elem_type elem = BGPSTREAM_ELEM_TYPE_ANNOUNCEMENT
              then pfx_announcements_cnt p1 + 1 else pfx_announcements_cnt p1) \<and>
           pfx_withdrawals_cnt p2 =
             (if elem_type elem = BGPSTREAM_ELEM_TYPE_ANNOUNCEMENT
              then pfx_withdrawals_cnt p1 else pfx_withdrawals_cnt p1 + 1) \<and>
           announcements pp2 =
             (if elem_type elem = BGPSTREAM_ELEM_TYPE_ANNOUNCEMENT \<and> \<not> ts < bgp_time_last_ts pp1 \<and>
                 \<not> (peer_state p1 = BGPWATCHER_VIEW_FIELD_INACTIVE \<and>
                    bgp_fsm_state p1 = BGPSTREAM_ELEM_PEERSTATE_UNKNOWN \<and>
                    bgp_time_uc_rib_start p1 = 0)
              then announcements pp1 + 1 else announcements pp1) \<and>
           withdrawals pp2 =
             (if elem_type elem \<noteq> BGPSTREAM_ELEM_TYPE_ANNOUNCEMENT \<and> \<not> ts < bgp_time_last_ts pp1 \<and>
                 \<not> (peer_state p1 = BGPWATCHER_VIEW_FIELD_INACTIVE \<and>
                    bgp_fsm_state p1 = BGPSTREAM_ELEM_PEERSTATE_UNKNOWN \<and>
                    bgp_time_uc_rib_start p1 = 0)
              then withdrawals pp1 + 1 else withdrawals pp1)"
proof -
  let ?asn = "if elem_type elem = BGPSTREAM_ELEM_TYPE_ANNOUNCEMENT
              then get_origin_asn B (aspath elem) else ROUTINGTABLES_DOWN_ORIGIN_ASN B"
  let ?k = "(elem_prefix elem, peer_id)"
  from assms obtain p0 p1 pp1 pp0 where p0: "map_of (view_peers rt) peer_id = Some p0"
    and nz: "peer_id \<noteq> 0"
    and first: "apply_prefix_update_fields B (count_and_stats p0 elem ?asn) pp0 elem ?asn ts = Inr (p1, pp1)"
    and rt1: "rt1 = set_pfx_peer ?k pp1 (set_peer peer_id p1 rt)"
    by (rule apply_prefix_update_Inr) blast
  from fields_idem [OF first] obtain p2 pp2
    where second: "apply_prefix_update_fields B (count_and_stats p1 elem ?asn) pp1 elem ?asn ts = Inr (p2, pp2)"
      and ep: "erase_peer_counters p2 = erase_peer_counters p1"
      and epp: "erase_pfx_peer_counters pp2 = erase_pfx_peer_counters pp1"
    by blast
  have l1: "map_of (view_peers rt1) peer_id = Some p1"
    and l2: "map_of (view_pfx_peers rt1) ?k = Some pp1"
    by (simp_all add: rt1 map_of_set_peer map_of_set_pfx_peer)
  have run2: "apply_prefix_update B rt1 c peer_id elem ts =
                Inr (set_pfx_peer ?k pp2 (set_peer peer_id p2 rt1))"
    by (rule apply_prefix_update_eq [OF l1 nz l2 second])
  have twice: "apply_twice B rt c peer_id elem ts = Inr (set_pfx_peer ?k pp2 (set_peer peer_id p2 rt1))"
    by (simp add: apply_twice_def assms run2)
  have er: "erase_update_counters (set_pfx_peer ?k pp2 (set_peer peer_id p2 rt1)) =
            erase_update_counters rt1"
    unfolding rt1 by (rule erase_set_twice [OF ep epp])
  from fields_counters [OF second]
  have cnt: "pfx_announcements_cnt p2 =
             (if elem_type elem = BGPSTREAM_ELEM_TYPE_ANNOUNCEMENT
              then pfx_announcements_cnt p1 + 1 else pfx_announcements_cnt p1)"
    "pfx_withdrawals_cnt p2 =
             (if elem_type elem = BGPSTREAM_ELEM_TYPE_ANNOUNCEMENT
              then pfx_withdrawals_cnt p1 else pfx_withdrawals_cnt p1 + 1)"
    "announcements pp2 =
             (if elem_type elem = BGPSTREAM_ELEM_TYPE_ANNOUNCEMENT \<and> \<not> ts < bgp_time_last_ts pp1 \<and>
                 \<not> (peer_state p1 = BGPWATCHER_VIEW_FIELD_INACTIVE \<and>
                    bgp_fsm_state p1 = BGPSTREAM_ELEM_PEERSTATE_UNKNOWN \<and>
                    bgp_time_uc_rib_start p1 = 0)
              then announcements pp1 + 1 else announcements pp1)"
    "withdrawals pp2 =
             (if elem_type elem \<noteq> BGPSTREAM_ELEM_TYPE_ANNOUNCEMENT \<and> \<not> ts < bgp_time_last_ts pp1 \<and>
                 \<not> (peer_state p1 = BGPWATCHER_VIEW_FIELD_INACTIVE \<and>
                    bgp_fsm_state p1 = BGPSTREAM_ELEM_PEERSTATE_UNKNOWN \<and>
                    bgp_time_uc_rib_start p1 = 0)
              then withdrawals pp1 + 1 else withdrawals pp1)"
    by (simp_all add: count_and_stats_def count_update_def)
  have l3: "map_of (view_peers (set_pfx_peer ?k pp2 (set_peer peer_id p2 rt1))) peer_id = Some p2"
    and l4: "map_of (view_pfx_peers (set_pfx_peer ?k pp2 (set_peer peer_id p2 rt1))) ?k = Some pp2"
    by (simp_all add: map_of_set_peer map_of_set_pfx_peer)
  have fr: "\<forall>i. i \<noteq> peer_id \<longrightarrow>
              map_of (view_peers (set_pfx_peer ?k pp2 (set_peer peer_id p2 rt1))) i =
              map_of (view_peers rt1) i"
    "\<forall>k. k \<noteq> ?k \<longrightarrow>
              map_of (view_pfx_peers (set_pfx_peer ?k pp2 (set_peer peer_id p2 rt1))) k =
              map_of (view_pfx_peers rt1) k"
    "peersigns (set_pfx_peer ?k pp2 (set_peer peer_id p2 rt1)) = peersigns rt1"
    "collectors (set_pfx_peer ?k pp2 (set_peer peer_id p2 rt1)) = collectors rt1"
    by (simp_all add: map_of_set_peer map_of_set_pfx_peer)
  from twice er fr l1 l2 l3 l4 cnt show ?thesis by blast
qed

theorem apply_prefix_update_twice_witness:
  "\<exists>rt1 rt2. apply_prefix_update 4200000000 (ex_rt ex_peer_established) new_collector 1
                (ex_elem BGPSTREAM_ELEM_TYPE_ANNOUNCEMENT) 110 = Inr rt1 \<and>
      apply_twice 4200000000 (ex_rt ex_peer_established) new_collector 1
                (ex_elem BGPSTREAM_ELEM_TYPE_ANNOUNCEMENT) 110 = Inr rt2 \<and>
      erase_update_counters rt2 = erase_update_counters rt1 \<and>
      peersigns rt2 = peersigns rt1 \<and> collectors rt2 = collectors rt1"
proof -
  have "\<exists>rt1. apply_prefix_update 4200000000 (ex_rt ex_peer_established) new_collector 1
                (ex_elem BGPSTREAM_ELEM_TYPE_ANNOUNCEMENT) 110 = Inr rt1"
    by (simp add: apply_prefix_update_def apply_prefix_update_fields_def Let_def ex_rt_def
        ex_elem_def ex_peer_established_def perpeer_info_create_def
        perpfx_perpeer_info_create_def update_prefix_peer_stats_def)
  then obtain rt1 where h: "apply_prefix_update 4200000000 (ex_rt ex_peer_established) new_collector 1
                (ex_elem BGPSTREAM_ELEM_TYPE_ANNOUNCEMENT) 110 = Inr rt1" ..
  from apply_prefix_update_twice [OF h] h show ?thesis by blast
qed

text \<open>
  The claim as first stated fails on the counters: for an established peer, an
  announcement at 110 applied twice leaves the announcement counter of the cell at 2,
  applied once at 1 (\<open>ts = cell.last_ts\<close> passes the gate and counts again).
\<close>

theorem apply_prefix_update_twice_counterexample:
  "(case apply_twice 4200000000 (ex_rt ex_peer_established) new_collector 1
           (ex_elem BGPSTREAM_ELEM_TYPE_ANNOUNCEMENT) 110 of
      Inl a \<Rightarrow> None
    | Inr rt' \<Rightarrow> map_option announcements (map_of (view_pfx_peers rt') (ex_pfx, 1))) = Some 2 \<and>
   (case apply_prefix_update 4200000000 (ex_rt ex_peer_established) new_collector 1
           (ex_elem BGPSTREAM_ELEM_TYPE_ANNOUNCEMENT) 110 of
      Inl a \<Rightarrow> None
    | Inr rt' \<Rightarrow> map_option announcements (map_of (view_pfx_peers rt') (ex_pfx, 1))) = Some 1"
  by (simp add: apply_twice_def apply_prefix_update_def apply_prefix_update_fields_def Let_def
      ex_rt_def ex_elem_def ex_peer_established_def perpeer_info_create_def
      perpfx_perpeer_info_create_def update_peer_stats_def update_prefix_peer_stats_def
      set_peer_def set_pfx_peer_def get_origin_asn_def ex_pfx_def)


section \<open>Records older than the reference RIB\<close>

lemma process_elems_collector:
  "process_elems B record es rt c = Inr (ret, rt', c') \<Longrightarrow>
     c' = c\<lparr>collector_peerids := collector_peerids c'\<rparr>"
proof (induction es arbitrary: rt c)
  case Nil
  then show ?case by simp
next
  case (Cons e es)
  show ?case
  proof (cases "skip_elem e")
    case True
    with Cons show ?thesis by simp
  next
    case False
    obtain rt1 pid where ap: "bgpwatcher_view_iter_add_peer rt (dump_collector record)
        (peer_address e) (peer_asnumber e) = (rt1, pid)" by (cases "bgpwatcher_view_iter_add_peer rt (dump_collector record)
        (peer_address e) (peer_asnumber e)")
    show ?thesis
    proof (cases "pid = 0")
      case True
      with Cons.prems False ap show ?thesis by simp
    next
      case nz: False
      with Cons.prems False ap obtain p rt3 where
        "process_elems B record es rt3 (c\<lparr>collector_peerids := insert pid (collector_peerids c)\<rparr>) = Inr (ret, rt', c')"
        by (auto simp: Let_def split: option.splits sum.splits)
      from Cons.IH [OF this] show ?thesis
        by (metis (no_types, lifting) collector_t.surjective collector_t.update_convs(1) collector_t.select_convs(1))
    qed
  qed
qed


lemma valid_bgpinfo_record_counters:
  assumes "collector_process_valid_bgpinfo B rt c record = Inr (ret, rt', c')"
  shows "record_counters c' = record_counters c"
proof -
  obtain rt1 c1 where pre: "(if dump_type record = BGPSTREAM_RIB \<and> dump_pos record = BGPSTREAM_DUMP_START then
               (let (rt', c') = (if bgp_time_uc_rib_dump_time c \<noteq> 0
                                 then stop_uc_process B rt c else (rt, c))
                in (rt', c'\<lparr>bgp_time_uc_rib_dump_time := dump_time record,
                            bgp_time_uc_rib_start_time := record_time record\<rparr>))
             else (rt, c)) = (rt1, c1)"
    by (metis surj_pair)
  then have c1: "record_counters c1 = record_counters c"
    by (auto simp: record_counters_def stop_uc_process_def Let_def split: if_splits)
  show ?thesis
  proof (cases "dump_type record = BGPSTREAM_RIB \<and> dump_time record \<noteq> bgp_time_uc_rib_dump_time c1")
    case True
    with assms pre c1 show ?thesis
      by (simp add: collector_process_valid_bgpinfo_def)
  next
    case False
    with assms pre obtain r2 rt2 c2 where
      pe: "process_elems B record (elems record) rt1 c1 = Inr (r2, rt2, c2)"
      by (auto simp: collector_process_valid_bgpinfo_def split: sum.splits)
    from process_elems_collector [OF pe] have "record_counters c2 = record_counters c1"
      by (metis (no_types, lifting) record_counters_def collector_t.select_convs(10,11,12)
          collector_t.surjective collector_t.update_convs(1))
    with assms pre pe False c1 show ?thesis
      by (auto simp: collector_process_valid_bgpinfo_def end_of_valid_rib_def Let_def
          record_counters_def split: if_splits prod.splits)
  qed
qed

lemma update_collector_state_record_counters [simp]:
  "record_counters (update_collector_state W now rt c record) = record_counters c"
  by (simp add: update_collector_state_def record_counters_def Let_def split: prod.splits)

lemma record_counters_bump:
  assumes "record_counters c1 = record_counters c"
  shows "record_counters (c1\<lparr>valid_record_cnt := valid_record_cnt c1 + 1\<rparr>) \<noteq> record_counters c"
    and "record_counters (c1\<lparr>corrupted_record_cnt := corrupted_record_cnt c1 + 1\<rparr>) \<noteq> record_counters c"
    and "record_counters (c1\<lparr>empty_record_cnt := empty_record_cnt c1 + 1\<rparr>) \<noteq> record_counters c"
  using assms by (auto simp: record_counters_def)

lemma store_collector_counters:
  assumes "store_collector W now record r rt1 c1 = Inr (ret, rt')"
    and "record_counters c1 \<noteq> record_counters c"
  shows "\<exists>c'. collectors rt' (dump_collector record) = Some c' \<and>
              record_counters c' \<noteq> record_counters c"
  using assms by (auto simp: store_collector_def)

lemma fold_record_counts:
  assumes "fold_record W now B rt c record = Inr (ret, rt')"
  shows "\<exists>c'. collectors rt' (dump_collector record) = Some c' \<and>
              record_counters c' \<noteq> record_counters c"
proof (cases "status record")
  case BGPSTREAM_RECORD_STATUS_VALID_RECORD
  with assms obtain r1 rt1 c1 where
    v: "collector_process_valid_bgpinfo B rt c record = Inr (r1, rt1, c1)"
    and r: "store_collector W now record r1 rt1 (c1\<lparr>valid_record_cnt := valid_record_cnt c1 + 1\<rparr>) = Inr (ret, rt')"
    by (auto simp: fold_record_def split: sum.splits)
  from store_collector_counters [OF r record_counters_bump(1) [OF valid_bgpinfo_record_counters [OF v]]]
  show ?thesis .
next
  case st: BGPSTREAM_RECORD_STATUS_FILTERED_SOURCE
  let ?c1 = "if record_time record < bgp_time_last c
             then c\<lparr>bgp_time_last := record_time record\<rparr> else c"
  from assms st have
    r: "store_collector W now record 0 rt (?c1\<lparr>empty_record_cnt := empty_record_cnt ?c1 + 1\<rparr>) = Inr (ret, rt')"
    by (simp add: fold_record_def Let_def)
  have c1: "record_counters ?c1 = record_counters c"
    by (simp add: record_counters_def)
  from store_collector_counters [OF r record_counters_bump(3) [OF c1]] show ?thesis .
next
  case st: BGPSTREAM_RECORD_STATUS_EMPTY_SOURCE
  let ?c1 = "if record_time record < bgp_time_last c
             then c\<lparr>bgp_time_last := record_time record\<rparr> else c"
  from assms st have
    r: "store_collector W now record 0 rt (?c1\<lparr>empty_record_cnt := empty_record_cnt ?c1 + 1\<rparr>) = Inr (ret, rt')"
    by (simp add: fold_record_def Let_def)
  have c1: "record_counters ?c1 = record_counters c"
    by (simp add: record_counters_def)
  from store_collector_counters [OF r record_counters_bump(3) [OF c1]] show ?thesis .
next
  case BGPSTREAM_RECORD_STATUS_CORRUPTED_SOURCE
  with assms obtain r1 rt1 where
    r: "store_collector W now record r1 rt1 (c\<lparr>corrupted_record_cnt := corrupted_record_cnt c + 1\<rparr>) = Inr (ret, rt')"
    by (auto simp: fold_record_def collector_process_corrupted_message_def split: if_splits)
  from store_collector_counters [OF r record_counters_bump(2) [OF refl]] show ?thesis .
next
  case BGPSTREAM_RECORD_STATUS_CORRUPTED_RECORD
  with assms obtain r1 rt1 where
    r: "store_collector W now record r1 rt1 (c\<lparr>corrupted_record_cnt := corrupted_record_cnt c + 1\<rparr>) = Inr (ret, rt')"
    by (auto simp: fold_record_def collector_process_corrupted_message_def split: if_splits)
  from store_collector_counters [OF r record_counters_bump(2) [OF refl]] show ?thesis .
qed

text \<open>
  C10. A record older than the reference RIB of its collector
  (\<open>record_time < bgp_time_ref_rib_start_time\<close>) is discarded, that is, the call
  returns 0 and leaves the engine as it was, if and only if a RIB is under construction
  for the collector (\<open>bgp_time_uc_rib_dump_time \<noteq> 0\<close>). When none is, the record is folded
  as any other record is.
\<close>

theorem older_record_discarded_iff_uc:
  assumes "collectors rt (dump_collector record) = Some c"
    and "record_time record < bgp_time_ref_rib_start_time c"
  shows "(routingtables_process_record W now B rt record = Inr (0, rt)
            \<longleftrightarrow> bgp_time_uc_rib_dump_time c \<noteq> 0) \<and>
         (bgp_time_uc_rib_dump_time c = 0 \<longrightarrow>
            routingtables_process_record W now B rt record = fold_record W now B rt c record)"
proof (cases "bgp_time_uc_rib_dump_time c = 0")
  case True
  with assms have eq: "routingtables_process_record W now B rt record = fold_record W now B rt c record"
    by (simp add: routingtables_process_record_def get_collector_data_def)
  have "fold_record W now B rt c record \<noteq> Inr (0, rt)"
  proof
    assume "fold_record W now B rt c record = Inr (0, rt)"
    from fold_record_counts [OF this] assms(1) show False by simp
  qed
  with eq True show ?thesis by simp
next
  case False
  with assms show ?thesis
    by (simp add: routingtables_process_record_def get_collector_data_def)
qed


theorem older_record_discarded_iff_uc_witness:
  "routingtables_process_record 3600 0 4200000000
     (ex_rt_collector (ex_collector 1000 900)) (ex_record BGPSTREAM_RECORD_STATUS_VALID_RECORD 500) =
   Inr (0, ex_rt_collector (ex_collector 1000 900)) \<and>
   routingtables_process_record 3600 0 4200000000
     (ex_rt_collector (ex_collector 1000 0)) (ex_record BGPSTREAM_RECORD_STATUS_VALID_RECORD 500) \<noteq>
   Inr (0, ex_rt_collector (ex_collector 1000 0))"
proof -
  let ?r = "ex_record BGPSTREAM_RECORD_STATUS_VALID_RECORD 500"
  have c: "collectors (ex_rt_collector (ex_collector 1000 u)) (dump_collector ?r) =
             Some (ex_collector 1000 u)" for u
    by (simp add: ex_rt_collector_def ex_record_def)
  have t: "record_time ?r < bgp_time_ref_rib_start_time (ex_collector 1000 u)" for u
    by (simp add: ex_record_def ex_collector_def)
  have u: "bgp_time_uc_rib_dump_time (ex_collector 1000 900) \<noteq> 0"
    "bgp_time_uc_rib_dump_time (ex_collector 1000 0) = 0"
    by (simp_all add: ex_collector_def)
  from older_record_discarded_iff_uc [OF c [of 900] t [of 900], of 3600 0 4200000000]
    older_record_discarded_iff_uc [OF c [of 0] t [of 0], of 3600 0 4200000000] u
  show ?thesis by blast
qed

section \<open>Empty and filtered records\<close>

text \<open>
  C3 (as the code has it). A record whose status is EmptySource or FilteredSource, when
  it is discarded as older than the reference RIB during an under-construction RIB,
  changes nothing. Otherwise it changes no peer, no cell, no peer signature and no other
  collector; the collector of the record (created when it is new) has its empty-record
  counter incremented and its \<open>bgp_time_last\<close> set to the time of the record, which lowers
  it when the record is older; only \<open>wall_time_last\<close>, \<open>state\<close> and \<open>active_peers_cnt\<close>
  may change besides.
\<close>

theorem empty_record_frame:
  assumes "status record = BGPSTREAM_RECORD_STATUS_EMPTY_SOURCE \<or>
           status record = BGPSTREAM_RECORD_STATUS_FILTERED_SOURCE"
    and "c = (case collectors rt (dump_collector record) of None \<Rightarrow> new_collector | Some c0 \<Rightarrow> c0)"
  shows "if record_time record < bgp_time_ref_rib_start_time c \<and> bgp_time_uc_rib_dump_time c \<noteq> 0
         then routingtables_process_record W now B rt record = Inr (0, rt)
         else (\<exists>rt' c'. routingtables_process_record W now B rt record = Inr (0, rt') \<and>
                 peersigns rt' = peersigns rt \<and> view_peers rt' = view_peers rt \<and>
                 view_pfx_peers rt' = view_pfx_peers rt \<and>
                 collectors rt' = (collectors rt)(dump_collector record \<mapsto> c') \<and>
                 empty_record_cnt c' = empty_record_cnt c + 1 \<and>
                 bgp_time_last c' = record_time record \<and>
                 c' = c\<lparr>empty_record_cnt := empty_record_cnt c',
                          bgp_time_last := bgp_time_last c',
                          wall_time_last := wall_time_last c',
                          state := state c',
                          active_peers_cnt := active_peers_cnt c'\<rparr>)"
proof (cases "record_time record < bgp_time_ref_rib_start_time c \<and> bgp_time_uc_rib_dump_time c \<noteq> 0")
  case True
  then have "collectors rt (dump_collector record) \<noteq> None"
    using assms(2) by (auto simp: new_collector_def split: option.splits)
  with True assms(2) show ?thesis
    by (auto simp: routingtables_process_record_def get_collector_data_def split: option.splits)
next
  case False
  let ?c1 = "if record_time record < bgp_time_last c
             then c\<lparr>bgp_time_last := record_time record\<rparr> else c"
  let ?c2 = "?c1\<lparr>empty_record_cnt := empty_record_cnt ?c1 + 1\<rparr>"
  obtain rt0 where g: "get_collector_data rt (dump_collector record) = (rt0, c)"
    and rt0: "peersigns rt0 = peersigns rt" "view_peers rt0 = view_peers rt"
      "view_pfx_peers rt0 = view_pfx_peers rt"
      "\<And>x. (collectors rt0)(dump_collector record \<mapsto> x) = (collectors rt)(dump_collector record \<mapsto> x)"
    using assms(2) by (cases "collectors rt (dump_collector record)") (auto simp: get_collector_data_def)
  let ?rt0 = rt0
  let ?c' = "update_collector_state W now ?rt0 ?c2 record"
  have run: "routingtables_process_record W now B rt record =
        Inr (0, ?rt0\<lparr>collectors := (collectors ?rt0)(dump_collector record \<mapsto> ?c')\<rparr>)"
    using assms(1) False g
    by (auto simp: routingtables_process_record_def fold_record_def store_collector_def Let_def)
  have last: "bgp_time_last ?c' = record_time record"
    by (auto simp: update_collector_state_def Let_def split: prod.splits)
  have cnt: "empty_record_cnt ?c' = empty_record_cnt c + 1"
    by (auto simp: update_collector_state_def Let_def split: prod.splits)
  have frame: "?c' = c\<lparr>empty_record_cnt := empty_record_cnt ?c',
                          bgp_time_last := bgp_time_last ?c',
                          wall_time_last := wall_time_last ?c',
                          state := state ?c',
                          active_peers_cnt := active_peers_cnt ?c'\<rparr>"
    by (auto simp: update_collector_state_def Let_def split: prod.splits)
  have "\<exists>rt' c'. routingtables_process_record W now B rt record = Inr (0, rt') \<and>
                 peersigns rt' = peersigns rt \<and> view_peers rt' = view_peers rt \<and>
                 view_pfx_peers rt' = view_pfx_peers rt \<and>
                 collectors rt' = (collectors rt)(dump_collector record \<mapsto> c') \<and>
                 empty_record_cnt c' = empty_record_cnt c + 1 \<and>
                 bgp_time_last c' = record_time record \<and>
                 c' = c\<lparr>empty_record_cnt := empty_record_cnt c',
                          bgp_time_last := bgp_time_last c',
                          wall_time_last := wall_time_last c',
                          state := state c',
                          active_peers_cnt := active_peers_cnt c'\<rparr>"
    apply (rule exI [where x = "?rt0\<lparr>collectors := (collectors ?rt0)(dump_collector record \<mapsto> ?c')\<rparr>"])
    apply (rule exI [where x = "?c'"])
    using run last cnt frame rt0 by simp
  with False show ?thesis by (simp only: if_False)
qed


theorem empty_record_frame_witness:
  "\<exists>rt' c'. routingtables_process_record 3600 0 4200000000 (ex_rt_collector (ex_collector 0 0))
               (ex_record BGPSTREAM_RECORD_STATUS_EMPTY_SOURCE 1500) = Inr (0, rt') \<and>
     view_peers rt' = [] \<and> view_pfx_peers rt' = [] \<and>
     collectors rt' = [''rrc00'' \<mapsto> c'] \<and>
     empty_record_cnt c' = 1 \<and> bgp_time_last c' = 1500"
proof -
  let ?r = "ex_record BGPSTREAM_RECORD_STATUS_EMPTY_SOURCE 1500"
  have st: "status ?r = BGPSTREAM_RECORD_STATUS_EMPTY_SOURCE \<or>
            status ?r = BGPSTREAM_RECORD_STATUS_FILTERED_SOURCE"
    by (simp add: ex_record_def)
  have c: "ex_collector 0 0 =
     (case collectors (ex_rt_collector (ex_collector 0 0)) (dump_collector ?r) of
        None \<Rightarrow> new_collector | Some c0 \<Rightarrow> c0)"
    by (simp add: ex_rt_collector_def ex_record_def)
  have nd: "\<not> (record_time ?r < bgp_time_ref_rib_start_time (ex_collector 0 0) \<and>
                bgp_time_uc_rib_dump_time (ex_collector 0 0) \<noteq> 0)"
    by (simp add: ex_collector_def)
  from empty_record_frame [OF st c, of 3600 0 4200000000] nd
  show ?thesis
    by (auto simp: ex_rt_collector_def ex_record_def ex_collector_def new_collector_def)
qed

text \<open>
  The claim as first stated fails on \<open>bgp_time_last\<close>: the collector has seen time 1000,
  an empty record of time 500 arrives, and \<open>bgp_time_last\<close> is 500 afterwards.
\<close>

theorem empty_record_lowers_time_counterexample:
  "(case routingtables_process_record 3600 0 4200000000 (ex_rt_collector (ex_collector 0 0))
           (ex_record BGPSTREAM_RECORD_STATUS_EMPTY_SOURCE 500) of
      Inl a \<Rightarrow> None
    | Inr (ret, rt') \<Rightarrow> map_option bgp_time_last (collectors rt' ''rrc00'')) = Some 500 \<and>
   map_option bgp_time_last (collectors (ex_rt_collector (ex_collector 0 0)) ''rrc00'') = Some 1000"
  by (simp add: routingtables_process_record_def get_collector_data_def fold_record_def
      store_collector_def update_collector_state_def Let_def ex_rt_collector_def
      ex_collector_def ex_record_def new_collector_def)


section \<open>Promotion at the end of a RIB\<close>

lemma step_cell_depends_on_start:
  "bgp_time_uc_rib_start p = bgp_time_uc_rib_start q \<Longrightarrow>
   snd (end_of_valid_rib_pfx_peer B p pp) = snd (end_of_valid_rib_pfx_peer B q pp)"
  by (simp add: end_of_valid_rib_pfx_peer_def uc_more_recent_def Let_def split: prod.splits)

lemma step_peer_keeps_start:
  "bgp_time_uc_rib_start (fst (end_of_valid_rib_pfx_peer B p pp)) = bgp_time_uc_rib_start p"
  by (simp add: end_of_valid_rib_pfx_peer_def rib_activate_peer_def Let_def split: prod.splits)

lemma step_peer_counter:
  "rib_positive_mismatches_cnt (fst (end_of_valid_rib_pfx_peer B p pp)) =
     (if uc_more_recent p pp \<and> uc_origin_asn pp = ROUTINGTABLES_DOWN_ORIGIN_ASN B \<and>
         pfx_peer_state pp = BGPWATCHER_VIEW_FIELD_ACTIVE
      then rib_positive_mismatches_cnt p + 1 else rib_positive_mismatches_cnt p)"
  by (simp add: end_of_valid_rib_pfx_peer_def rib_activate_peer_def Let_def split: prod.splits)

lemma rib_pfx_peer_cong:
  "same_uc_start ps ps0 \<Longrightarrow> rib_pfx_peer B c ps e = rib_pfx_peer B c ps0 e"
proof -
  assume s: "same_uc_start ps ps0"
  then have "map_option bgp_time_uc_rib_start (map_of ps (snd (fst e))) =
             map_option bgp_time_uc_rib_start (map_of ps0 (snd (fst e)))"
    by (simp add: same_uc_start_def)
  then show ?thesis
    by (cases "map_of ps (snd (fst e))"; cases "map_of ps0 (snd (fst e))")
      (auto simp: rib_pfx_peer_def dest: step_cell_depends_on_start)
qed

lemma same_uc_start_update:
  assumes "same_uc_start ps ps0" and "map_of ps k = Some p"
    and "bgp_time_uc_rib_start p' = bgp_time_uc_rib_start p"
  shows "same_uc_start (AList.update k p' ps) ps0"
  unfolding same_uc_start_def
proof
  fix j
  from assms(1) have "map_option bgp_time_uc_rib_start (map_of ps j) =
      map_option bgp_time_uc_rib_start (map_of ps0 j)"
    by (simp add: same_uc_start_def)
  with assms(2,3) show "map_option bgp_time_uc_rib_start (map_of (AList.update k p' ps) j) =
      map_option bgp_time_uc_rib_start (map_of ps0 j)"
    by (cases "j = k") (auto simp: update_conv')
qed

lemma pfx_peers_loop:
  "same_uc_start ps ps0 \<Longrightarrow>
   snd (end_of_valid_rib_pfx_peers B c ps cells) = map (rib_pfx_peer B c ps0) cells \<and>
   same_uc_start (fst (end_of_valid_rib_pfx_peers B c ps cells)) ps0"
proof (induction cells arbitrary: ps)
  case Nil
  then show ?case by simp
next
  case (Cons e rest)
  note eq = rib_pfx_peer_cong [OF Cons.prems, of B c e]
  show ?case
  proof (cases "map_of ps (snd (fst e))")
    case None
    then have head: "rib_pfx_peer B c ps0 e = e"
      using eq by (simp add: rib_pfx_peer_def)
    from Cons.IH [OF Cons.prems] None show ?thesis
      by (simp add: head case_prod_beta)
  next
    case (Some p)
    show ?thesis
    proof (cases "snd (fst e) \<in> collector_peerids c \<and> bgp_time_uc_rib_start p \<noteq> 0")
      case True
      with Some have head: "rib_pfx_peer B c ps0 e = (fst e, snd (end_of_valid_rib_pfx_peer B p (snd e)))"
        using eq by (simp add: rib_pfx_peer_def)
      have "bgp_time_uc_rib_start (fst (end_of_valid_rib_pfx_peer B p (snd e))) = bgp_time_uc_rib_start p"
        by (rule step_peer_keeps_start)
      from same_uc_start_update [OF Cons.prems Some this]
      have "same_uc_start (AList.update (snd (fst e)) (fst (end_of_valid_rib_pfx_peer B p (snd e))) ps) ps0" .
      from Cons.IH [OF this] Some True show ?thesis
        by (simp add: head case_prod_beta)
    next
      case False
      with Some have head: "rib_pfx_peer B c ps0 e = e"
        using eq by (auto simp: rib_pfx_peer_def)
      from Cons.IH [OF Cons.prems] Some False show ?thesis
        by (auto simp: head case_prod_beta)
    qed
  qed
qed


lemma update_present_keys:
  "map_of al k = Some v \<Longrightarrow> map fst (AList.update k v' al) = map fst al"
  by (induction al) (auto split: if_splits)

lemma pfx_peers_loop_keys:
  "map fst (fst (end_of_valid_rib_pfx_peers B c ps cells)) = map fst ps"
proof (induction cells arbitrary: ps)
  case Nil
  then show ?case by simp
next
  case (Cons e rest)
  show ?case
  proof (cases "map_of ps (snd (fst e))")
    case None
    with Cons.IH show ?thesis by (simp add: case_prod_beta)
  next
    case (Some p)
    with Cons.IH show ?thesis
      by (simp add: case_prod_beta update_present_keys)
  qed
qed

lemma missed_withdrawal_other:
  "snd (fst e) \<noteq> peer_id \<Longrightarrow> \<not> missed_withdrawal B peer_id start e"
  by (simp add: missed_withdrawal_def)

lemma missed_withdrawal_own:
  "snd (fst e) = peer_id \<Longrightarrow>
   missed_withdrawal B peer_id (bgp_time_uc_rib_start p) e \<longleftrightarrow>
     uc_more_recent p (snd e) \<and> uc_origin_asn (snd e) = ROUTINGTABLES_DOWN_ORIGIN_ASN B \<and>
     pfx_peer_state (snd e) = BGPWATCHER_VIEW_FIELD_ACTIVE"
  by (simp add: missed_withdrawal_def uc_more_recent_def ROUTINGTABLES_RIB_BACKLOG_TIME_def)

lemma pfx_peers_loop_counter:
  assumes "map_of ps peer_id = Some p" and "peer_id \<in> collector_peerids c"
    and "bgp_time_uc_rib_start p \<noteq> 0"
  shows "\<exists>p'. map_of (fst (end_of_valid_rib_pfx_peers B c ps cells)) peer_id = Some p' \<and>
           rib_positive_mismatches_cnt p' =
             rib_positive_mismatches_cnt p +
             of_nat (length (filter (missed_withdrawal B peer_id (bgp_time_uc_rib_start p)) cells))"
  using assms
proof (induction cells arbitrary: ps p)
  case Nil
  then show ?case by simp
next
  case (Cons e rest)
  show ?case
  proof (cases "snd (fst e) = peer_id")
    case True
    let ?p' = "fst (end_of_valid_rib_pfx_peer B p (snd e))"
    have start: "bgp_time_uc_rib_start ?p' = bgp_time_uc_rib_start p"
      by (rule step_peer_keeps_start)
    have look: "map_of (AList.update peer_id ?p' ps) peer_id = Some ?p'"
      by (simp add: update_conv')
    from Cons.IH [OF look Cons.prems(2)] start Cons.prems(3)
    obtain p'' where fin: "map_of (fst (end_of_valid_rib_pfx_peers B c (AList.update peer_id ?p' ps) rest)) peer_id = Some p''"
      and cnt: "rib_positive_mismatches_cnt p'' = rib_positive_mismatches_cnt ?p' +
             of_nat (length (filter (missed_withdrawal B peer_id (bgp_time_uc_rib_start p)) rest))"
      by auto
    from True Cons.prems fin have run: "map_of (fst (end_of_valid_rib_pfx_peers B c ps (e # rest))) peer_id = Some p''"
      by (simp add: case_prod_beta)
    from cnt have "rib_positive_mismatches_cnt p'' =
             rib_positive_mismatches_cnt p +
             of_nat (length (filter (missed_withdrawal B peer_id (bgp_time_uc_rib_start p)) (e # rest)))"
      by (simp add: step_peer_counter missed_withdrawal_own [OF True])
    with run show ?thesis by blast
  next
    case False
    have "\<exists>ps'. map_of ps' peer_id = Some p \<and>
            fst (end_of_valid_rib_pfx_peers B c ps (e # rest)) =
            fst (end_of_valid_rib_pfx_peers B c ps' rest)"
    proof (cases "map_of ps (snd (fst e))")
      case None
      with Cons.prems(1) show ?thesis
        by (intro exI [where x = ps]) (simp add: case_prod_beta)
    next
      case (Some q)
      show ?thesis
      proof (cases "snd (fst e) \<in> collector_peerids c \<and> bgp_time_uc_rib_start q \<noteq> 0")
        case True
        with Some False Cons.prems(1) show ?thesis
          by (intro exI [where x = "AList.update (snd (fst e)) (fst (end_of_valid_rib_pfx_peer B q (snd e))) ps"])
            (simp add: case_prod_beta update_conv')
      next
        case no: False
        with Some Cons.prems(1) show ?thesis
          by (intro exI [where x = ps]) (auto simp: case_prod_beta)
      qed
    qed
    then obtain ps' where l: "map_of ps' peer_id = Some p"
      and r: "fst (end_of_valid_rib_pfx_peers B c ps (e # rest)) =
            fst (end_of_valid_rib_pfx_peers B c ps' rest)" by blast
    from Cons.IH [OF l Cons.prems(2,3)] r False show ?thesis
      by (simp add: missed_withdrawal_other)
  qed
qed

lemma peers_loop_peers:
  "fst (end_of_valid_rib_peers B c ps cells) = map (rib_peer c) ps"
  by (induction ps arbitrary: cells) (auto simp: rib_peer_def case_prod_beta)

lemma reset_pfx_peer_other:
  "snd (fst e) \<noteq> k \<Longrightarrow> reset_pfx_peer B k u e = e"
  by (simp add: reset_pfx_peer_def)

lemma reset_pfx_peer_key [simp]: "fst (reset_pfx_peer B k u e) = fst e"
  by (simp add: reset_pfx_peer_def Let_def)

lemma peers_loop_pfx_peers:
  assumes "\<forall>e \<in> set ps. fst e = peer_id \<longrightarrow> bgp_time_uc_rib_start (snd e) \<noteq> 0"
  shows "length (snd (end_of_valid_rib_peers B c ps cells)) = length cells \<and>
         (\<forall>i < length cells. snd (fst (cells ! i)) = peer_id \<longrightarrow>
            snd (end_of_valid_rib_peers B c ps cells) ! i = cells ! i)"
  using assms
proof (induction ps arbitrary: cells)
  case Nil
  then show ?case by simp
next
  case (Cons e rest)
  from Cons.prems have r: "\<forall>e \<in> set rest. fst e = peer_id \<longrightarrow> bgp_time_uc_rib_start (snd e) \<noteq> 0"
    by simp
  show ?case
  proof (cases "fst e \<in> collector_peerids c \<and> bgp_time_uc_rib_start (snd e) = 0 \<and>
            last_ts (snd e) < bgp_time_last c - ROUTINGTABLES_MAX_INACTIVE_TIME \<and>
            bgp_fsm_state (snd e) = BGPSTREAM_ELEM_PEERSTATE_ESTABLISHED")
    case True
    with Cons.prems have ne: "fst e \<noteq> peer_id" by auto
    from True have run: "snd (end_of_valid_rib_peers B c (e # rest) cells) =
        snd (end_of_valid_rib_peers B c rest (map (reset_pfx_peer B (fst e) False) cells))"
      by (simp add: case_prod_beta)
    from Cons.IH [OF r, of "map (reset_pfx_peer B (fst e) False) cells"] ne show ?thesis
      unfolding run by (auto simp: reset_pfx_peer_other)
  next
    case False
    then have run: "snd (end_of_valid_rib_peers B c (e # rest) cells) =
        snd (end_of_valid_rib_peers B c rest cells)"
      by (auto simp: case_prod_beta)
    from Cons.IH [OF r, of cells] show ?thesis unfolding run .
  qed
qed

lemma map_of_map_entries:
  assumes "\<And>e. fst (g e) = fst e"
  shows "map_of (map g ps) k = map_option (\<lambda>v. snd (g (k, v))) (map_of ps k)"
proof (induction ps)
  case Nil
  then show ?case by simp
next
  case (Cons e rest)
  then show ?case
    using assms [of e] by (cases e; cases "g e") auto
qed

lemma rib_peer_key [simp]: "fst (rib_peer c e) = fst e"
  by (simp add: rib_peer_def)

lemma rib_peer_counter [simp]:
  "rib_positive_mismatches_cnt (snd (rib_peer c e)) = rib_positive_mismatches_cnt (snd e)"
  by (simp add: rib_peer_def)

lemma step_cell_fields:
  "(if bgp_time_uc_delta_ts pp + bgp_time_uc_rib_start p > bgp_time_last_ts pp \<and>
       \<not> (bgp_time_last_ts pp > bgp_time_uc_rib_start p - 60)
    then (if uc_origin_asn pp \<noteq> ROUTINGTABLES_DOWN_ORIGIN_ASN B
          then bgp_time_last_ts (snd (end_of_valid_rib_pfx_peer B p pp)) =
                 bgp_time_uc_delta_ts pp + bgp_time_uc_rib_start p \<and>
               orig_asn (snd (end_of_valid_rib_pfx_peer B p pp)) = uc_origin_asn pp \<and>
               pfx_peer_state (snd (end_of_valid_rib_pfx_peer B p pp)) = BGPWATCHER_VIEW_FIELD_ACTIVE
          else bgp_time_last_ts (snd (end_of_valid_rib_pfx_peer B p pp)) = 0 \<and>
               orig_asn (snd (end_of_valid_rib_pfx_peer B p pp)) = ROUTINGTABLES_DOWN_ORIGIN_ASN B \<and>
               pfx_peer_state (snd (end_of_valid_rib_pfx_peer B p pp)) = BGPWATCHER_VIEW_FIELD_INACTIVE)
    else bgp_time_last_ts (snd (end_of_valid_rib_pfx_peer B p pp)) = bgp_time_last_ts pp \<and>
         orig_asn (snd (end_of_valid_rib_pfx_peer B p pp)) = orig_asn pp \<and>
         pfx_peer_state (snd (end_of_valid_rib_pfx_peer B p pp)) =
           (if orig_asn pp \<noteq> ROUTINGTABLES_DOWN_ORIGIN_ASN B
            then BGPWATCHER_VIEW_FIELD_ACTIVE else pfx_peer_state pp))"
  by (simp add: end_of_valid_rib_pfx_peer_def uc_more_recent_def
      ROUTINGTABLES_RIB_BACKLOG_TIME_def Let_def)

text \<open>
  C1. On a RIB end record for collector \<open>C\<close>, take any cell (prefix, peer) of a peer
  \<open>p\<close> of \<open>C\<close> with \<open>uc_rib_start_ts(p) \<noteq> 0\<close>. The under-construction data is promoted
  over the live data if and only if
  \<open>uc_delta_ts + uc_rib_start_ts(p) > cell.last_ts\<close> and not
  \<open>cell.last_ts > uc_rib_start_ts(p) - 60\<close> (in the 32-bit arithmetic of the source):
  when the test holds and \<open>uc_origin_asn\<close> is a route, the live data becomes the
  under-construction data and the cell is active; when it holds and \<open>uc_origin_asn\<close> is
  \<open>ORIGIN_DOWN\<close>, the live data becomes absent (\<open>last_ts = 0\<close>, origin \<open>ORIGIN_DOWN\<close>, cell
  inactive); when it fails, \<open>last_ts\<close> and origin stay. The positive-mismatch counter of
  the peer grows by one for each of its cells that passes the test with
  \<open>uc_origin_asn = ORIGIN_DOWN\<close> and was active, and by nothing else. (The peers of the
  view have distinct ids.)
\<close>

theorem end_of_valid_rib_promotion:
  assumes run: "end_of_valid_rib B rt c = (rt', c')"
    and dist: "distinct (map fst (view_peers rt))"
    and i: "i < length (view_pfx_peers rt)"
    and cell: "view_pfx_peers rt ! i = ((pfx, peer_id), pp)"
    and peer: "map_of (view_peers rt) peer_id = Some p"
    and member: "peer_id \<in> collector_peerids c"
    and uc: "bgp_time_uc_rib_start p \<noteq> 0"
  shows "\<exists>pp' p'. length (view_pfx_peers rt') = length (view_pfx_peers rt) \<and>
           view_pfx_peers rt' ! i = ((pfx, peer_id), pp') \<and>
           map_of (view_peers rt') peer_id = Some p' \<and>
           (if bgp_time_uc_delta_ts pp + bgp_time_uc_rib_start p > bgp_time_last_ts pp \<and>
               \<not> (bgp_time_last_ts pp > bgp_time_uc_rib_start p - 60)
            then (if uc_origin_asn pp \<noteq> ROUTINGTABLES_DOWN_ORIGIN_ASN B
                  then bgp_time_last_ts pp' = bgp_time_uc_delta_ts pp + bgp_time_uc_rib_start p \<and>
                       orig_asn pp' = uc_origin_asn pp \<and>
                       pfx_peer_state pp' = BGPWATCHER_VIEW_FIELD_ACTIVE
                  else bgp_time_last_ts pp' = 0 \<and>
                       orig_asn pp' = ROUTINGTABLES_DOWN_ORIGIN_ASN B \<and>
                       pfx_peer_state pp' = BGPWATCHER_VIEW_FIELD_INACTIVE)
            else bgp_time_last_ts pp' = bgp_time_last_ts pp \<and>
                 orig_asn pp' = orig_asn pp \<and>
                 pfx_peer_state pp' =
                   (if orig_asn pp \<noteq> ROUTINGTABLES_DOWN_ORIGIN_ASN B
                    then BGPWATCHER_VIEW_FIELD_ACTIVE else pfx_peer_state pp)) \<and>
           rib_positive_mismatches_cnt p' =
             rib_positive_mismatches_cnt p +
             of_nat (length (filter (missed_withdrawal B peer_id (bgp_time_uc_rib_start p))
                                    (view_pfx_peers rt)))"
proof -
  let ?ps = "view_peers rt" and ?cells = "view_pfx_peers rt"
  let ?l1 = "end_of_valid_rib_pfx_peers B c ?ps ?cells"
  let ?l2 = "end_of_valid_rib_peers B c (fst ?l1) (snd ?l1)"
  let ?pp' = "snd (end_of_valid_rib_pfx_peer B p pp)"
  have refl_uc: "same_uc_start ?ps ?ps" by (simp add: same_uc_start_def)
  from pfx_peers_loop [OF refl_uc, of B c ?cells]
  have cells1: "snd ?l1 = map (rib_pfx_peer B c ?ps) ?cells"
    and uc1: "same_uc_start (fst ?l1) ?ps" by simp_all
  have c1i: "snd ?l1 ! i = ((pfx, peer_id), ?pp')"
    using i cell peer member uc by (simp add: cells1 rib_pfx_peer_def)
  have len1: "length (snd ?l1) = length ?cells" by (simp add: cells1)
  from pfx_peers_loop_counter [OF peer member uc, of B ?cells]
  obtain p1 where p1: "map_of (fst ?l1) peer_id = Some p1"
    and cnt1: "rib_positive_mismatches_cnt p1 = rib_positive_mismatches_cnt p +
        of_nat (length (filter (missed_withdrawal B peer_id (bgp_time_uc_rib_start p)) ?cells))"
    by blast
  from uc1 p1 peer have start1: "bgp_time_uc_rib_start p1 = bgp_time_uc_rib_start p"
    by (auto simp: same_uc_start_def dest: spec [where x = peer_id])
  have dist1: "distinct (map fst (fst ?l1))"
    by (simp add: pfx_peers_loop_keys dist)
  have only: "\<forall>e \<in> set (fst ?l1). fst e = peer_id \<longrightarrow> bgp_time_uc_rib_start (snd e) \<noteq> 0"
  proof (intro ballI impI)
    fix e assume "e \<in> set (fst ?l1)" and "fst e = peer_id"
    then have "(peer_id, snd e) \<in> set (fst ?l1)" by (cases e) auto
    with dist1 have "map_of (fst ?l1) peer_id = Some (snd e)" by (rule map_of_is_SomeI)
    with p1 start1 uc show "bgp_time_uc_rib_start (snd e) \<noteq> 0" by simp
  qed
  from peers_loop_pfx_peers [OF only, of B c "snd ?l1"] len1 i c1i
  have len2: "length (snd ?l2) = length ?cells"
    and c2i: "snd ?l2 ! i = ((pfx, peer_id), ?pp')" by simp_all
  have ps2: "fst ?l2 = map (rib_peer c) (fst ?l1)" by (rule peers_loop_peers)
  have p2: "map_of (fst ?l2) peer_id = Some (snd (rib_peer c (peer_id, p1)))"
    by (simp add: ps2 map_of_map_entries p1)
  have cnt2: "rib_positive_mismatches_cnt (snd (rib_peer c (peer_id, p1))) =
        rib_positive_mismatches_cnt p +
        of_nat (length (filter (missed_withdrawal B peer_id (bgp_time_uc_rib_start p)) ?cells))"
    by (simp add: cnt1)
  from run have rt': "view_peers rt' = fst ?l2" "view_pfx_peers rt' = snd ?l2"
    by (auto simp: end_of_valid_rib_def case_prod_beta Let_def)
  show ?thesis
    apply (rule exI [where x = ?pp'])
    apply (rule exI [where x = "snd (rib_peer c (peer_id, p1))"])
    using len2 c2i p2 cnt2 step_cell_fields [of pp p B]
    by (simp only: rt' simp_thms)
qed

theorem end_of_valid_rib_promotion_witness:
  "\<exists>pp' p'. view_pfx_peers (fst (end_of_valid_rib 4200000000 ex_rib_rt ex_rib_collector)) ! 0 =
               ((ex_pfx, 1), pp') \<and>
     map_of (view_peers (fst (end_of_valid_rib 4200000000 ex_rib_rt ex_rib_collector))) 1 = Some p' \<and>
     bgp_time_last_ts pp' = 0 \<and> orig_asn pp' = 4200000002 \<and>
     pfx_peer_state pp' = BGPWATCHER_VIEW_FIELD_INACTIVE \<and>
     rib_positive_mismatches_cnt p' = 1"
proof -
  have run: "end_of_valid_rib 4200000000 ex_rib_rt ex_rib_collector =
      (fst (end_of_valid_rib 4200000000 ex_rib_rt ex_rib_collector),
       snd (end_of_valid_rib 4200000000 ex_rib_rt ex_rib_collector))" by simp
  have dist: "distinct (map fst (view_peers ex_rib_rt))"
    by (simp add: ex_rib_rt_def ex_rt_def)
  have i: "0 < length (view_pfx_peers ex_rib_rt)" by (simp add: ex_rib_rt_def)
  have cell: "view_pfx_peers ex_rib_rt ! 0 = ((ex_pfx, 1), ex_cell_live)"
    by (simp add: ex_rib_rt_def)
  have peer: "map_of (view_peers ex_rib_rt) 1 = Some ex_peer_uc"
    by (simp add: ex_rib_rt_def ex_rt_def)
  have member: "1 \<in> collector_peerids ex_rib_collector" by (simp add: ex_rib_collector_def)
  have uc: "bgp_time_uc_rib_start ex_peer_uc \<noteq> 0" by (simp add: ex_peer_uc_def)
  have n: "length (filter (missed_withdrawal 4200000000 1 2000) (view_pfx_peers ex_rib_rt)) = 1"
    by (simp add: missed_withdrawal_def ex_rib_rt_def ex_cell_live_def ex_peer_uc_def
        perpfx_perpeer_info_create_def ROUTINGTABLES_DOWN_ORIGIN_ASN_def)
  from end_of_valid_rib_promotion [OF run dist i cell peer member uc]
  show ?thesis
    by (auto simp: n ex_cell_live_def ex_peer_uc_def ex_peer_established_def
        perpeer_info_create_def perpfx_perpeer_info_create_def ROUTINGTABLES_DOWN_ORIGIN_ASN_def)
qed


section \<open>The state of every collector after every record\<close>

lemma count_peer_step:
  "count_peer c (n, u) e =
     (if active_member c e then n + 1 else n,
      u \<and> \<not> (known_member c e \<and> \<not> active_member c e))"
  by (cases "peer_state (snd e)") (auto simp: count_peer_def active_member_def known_member_def)

lemma count_peer_foldl:
  "foldl (count_peer c) (n, u) ps =
     (n + of_nat (length (filter (active_member c) ps)),
      u \<and> \<not> (\<exists>e \<in> set ps. known_member c e \<and> \<not> active_member c e))"
proof (induction ps arbitrary: n u)
  case Nil
  then show ?case by simp
next
  case (Cons e ps)
  have "foldl (count_peer c) (n, u) (e # ps) =
        foldl (count_peer c) (if active_member c e then n + 1 else n,
          u \<and> \<not> (known_member c e \<and> \<not> active_member c e)) ps"
    by (simp add: count_peer_step)
  also have "\<dots> = (n + of_nat (length (filter (active_member c) (e # ps))),
      u \<and> \<not> (\<exists>e \<in> set (e # ps). known_member c e \<and> \<not> active_member c e))"
    by (auto simp: Cons.IH)
  finally show ?case .
qed

lemma distinct_peer_ids_length:
  fixes ps :: peer_table
  assumes "distinct (map fst ps)"
  shows "length ps \<le> 2 ^ 16"
proof -
  have "length ps = card (set (map fst ps))"
    using distinct_card [OF assms] by simp
  also have "\<dots> \<le> card (UNIV :: 16 word set)"
    by (rule card_mono) simp_all
  also have "\<dots> = 2 ^ 16" by (simp add: card_word)
  finally show ?thesis .
qed

lemma active_count_zero:
  fixes ps :: peer_table
  assumes "distinct (map fst ps)"
  shows "(of_nat (length (filter (active_member c) ps)) :: u32) = 0 \<longleftrightarrow>
         \<not> (\<exists>e \<in> set ps. active_member c e)"
proof -
  let ?n = "length (filter (active_member c) ps)"
  have "?n \<le> length ps" by simp
  also have "\<dots> \<le> 2 ^ 16" by (rule distinct_peer_ids_length [OF assms])
  also have "\<dots> < (2 :: nat) ^ 32" by simp
  finally have b: "?n < 2 ^ 32" .
  have "(of_nat ?n :: u32) = 0 \<longleftrightarrow> 2 ^ 32 dvd ?n"
    by (simp add: word_of_nat_eq_0_iff)
  also have "\<dots> \<longleftrightarrow> ?n = 0"
    using b nat_dvd_not_less by fastforce
  also have "\<dots> \<longleftrightarrow> \<not> (\<exists>e \<in> set ps. active_member c e)"
    by (auto simp: filter_empty_conv)
  finally show ?thesis .
qed

lemma update_collector_state_expected:
  assumes "distinct (map fst (view_peers rt))"
  shows "state (update_collector_state W now rt c record) =
         expected_state rt (update_collector_state W now rt c record)"
proof -
  have ids: "collector_peerids (update_collector_state W now rt c record) = collector_peerids c"
    by (simp add: update_collector_state_def Let_def case_prod_beta)
  let ?c1 = "if record_time record > bgp_time_last c then
                  (if record_time record > bgp_time_last c + W
                   then c\<lparr>wall_time_last := now\<rparr> else c)\<lparr>bgp_time_last := record_time record\<rparr>
                else c"
  have ids1: "active_member ?c1 = active_member c" "known_member ?c1 = known_member c"
    by (auto simp: active_member_def known_member_def fun_eq_iff)
  have e: "expected_state rt (update_collector_state W now rt c record) = expected_state rt c"
    by (simp add: expected_state_def active_member_def known_member_def ids)
  have "state (update_collector_state W now rt c record) = expected_state rt c"
    using active_count_zero [OF assms, of c]
    by (auto simp: update_collector_state_def Let_def count_peer_foldl ids1 expected_state_def)
  with e show ?thesis by simp
qed

lemma untouched_refl [simp]: "untouched S ps ps"
  by (simp add: untouched_def)

lemma untouched_trans:
  "untouched S ps ps' \<Longrightarrow> untouched S ps' ps'' \<Longrightarrow> untouched S ps ps''"
  by (simp add: untouched_def)

lemma untouched_update:
  "k \<in> S \<Longrightarrow> untouched S ps (AList.update k v ps)"
  unfolding untouched_def by (induction ps) auto

lemma untouched_map:
  assumes "\<And>e. fst e \<notin> S \<Longrightarrow> g e = e" and "\<And>e. fst (g e) = fst e"
  shows "untouched S ps (map g ps)"
  unfolding untouched_def using assms by (induction ps) auto

lemma untouched_mono:
  "untouched S ps ps' \<Longrightarrow> S \<subseteq> T \<Longrightarrow> untouched T ps ps'"
proof -
  assume u: "untouched S ps ps'" and st: "S \<subseteq> T"
  have "filter (\<lambda>e. fst e \<notin> T) xs = filter (\<lambda>e. fst e \<notin> T) (filter (\<lambda>e. fst e \<notin> S) xs)" for xs :: peer_table
    using st by (induction xs) auto
  then have "filter (\<lambda>e. fst e \<notin> T) ps' = filter (\<lambda>e. fst e \<notin> T) (filter (\<lambda>e. fst e \<notin> S) ps')"
    and "filter (\<lambda>e. fst e \<notin> T) ps = filter (\<lambda>e. fst e \<notin> T) (filter (\<lambda>e. fst e \<notin> S) ps)"
    by blast+
  with u show ?thesis unfolding untouched_def by (simp only:)
qed

lemma keys_map:
  assumes "\<And>e. fst (g e) = fst e"
  shows "map fst (map g ps) = map fst ps"
  using assms by (induction ps) auto


lemma of_nat_Suc_16_inj:
  assumes "i < 2 ^ 16 - 1" and "j < 2 ^ 16 - 1"
    and "(of_nat (Suc i) :: 16 word) = of_nat (Suc j)"
  shows "i = j"
proof -
  from assms(1,2) have "Suc i < 2 ^ 16" "Suc j < 2 ^ 16" by simp_all
  then have "unat (of_nat (Suc i) :: 16 word) = Suc i" "unat (of_nat (Suc j) :: 16 word) = Suc j"
    by (simp_all add: of_nat_inverse [OF refl] del: of_nat_Suc)
  with assms(3) show ?thesis by (metis nat.inject)
qed

lemma of_nat_Suc_16_nonzero:
  assumes "i < 2 ^ 16 - 1"
  shows "(of_nat (Suc i) :: 16 word) \<noteq> 0"
proof -
  from assms have "Suc i < 2 ^ 16" by simp
  then have "unat (of_nat (Suc i) :: 16 word) = Suc i"
    by (simp add: of_nat_inverse [OF refl] del: of_nat_Suc)
  then show ?thesis by (metis Zero_not_Suc unat_0)
qed

lemma sigs_ok_unique:
  assumes "sigs_ok rt" and "(s1, k) \<in> set (peersigns rt)" and "(s2, k) \<in> set (peersigns rt)"
  shows "s1 = s2"
proof -
  from assms(2) obtain i where i: "i < length (peersigns rt)" "peersigns rt ! i = (s1, k)"
    by (auto simp: in_set_conv_nth)
  from assms(3) obtain j where j: "j < length (peersigns rt)" "peersigns rt ! j = (s2, k)"
    by (auto simp: in_set_conv_nth)
  from assms(1) i j have "(of_nat (Suc i) :: 16 word) = of_nat (Suc j)"
    by (metis sigs_ok_def snd_conv)
  moreover from assms(1) i(1) j(1) have "i < 2 ^ 16 - 1" "j < 2 ^ 16 - 1"
    by (simp_all add: sigs_ok_def)
  ultimately have "i = j" by (rule of_nat_Suc_16_inj [rotated 2])
  with i j show ?thesis by simp
qed

lemma sigs_ok_nonzero:
  assumes "sigs_ok rt" and "(s, k) \<in> set (peersigns rt)"
  shows "k \<noteq> 0"
proof -
  from assms(2) obtain i where i: "i < length (peersigns rt)" "peersigns rt ! i = (s, k)"
    by (auto simp: in_set_conv_nth)
  with assms(1) have "k = of_nat (Suc i)" "i < 2 ^ 16 - 1"
    by (auto simp: sigs_ok_def dest: spec [where x = i])
  then show ?thesis by (simp only: of_nat_Suc_16_nonzero not_False_eq_True)
qed

lemma apply_elem_peers:
  assumes "apply_elem B rt c peer_id elem ts = Inr rt'"
  shows "\<exists>p'. view_peers rt' = AList.update peer_id p' (view_peers rt) \<and>
              peersigns rt' = peersigns rt \<and> collectors rt' = collectors rt"
proof -
  consider (upd) "apply_prefix_update B rt c peer_id elem ts = Inr rt'"
    | (st) "apply_state_update B rt c peer_id (new_state elem) ts = Inr rt'"
    | (rib) "apply_rib_message B rt c peer_id elem ts = Inr rt'"
    using assms by (auto simp: apply_elem_def split: if_splits)
  then show ?thesis
  proof cases
    case upd
    then show ?thesis
      by (rule apply_prefix_update_Inr) (auto simp: set_peer_def set_pfx_peer_def)
  next
    case st
    then show ?thesis
      by (auto simp: apply_state_update_def Let_def set_peer_def reset_peerpfxdata_def
          split: if_splits option.splits)
  next
    case rib
    then show ?thesis
      by (auto simp: apply_rib_message_def Let_def set_peer_def set_pfx_peer_def
          split: if_splits option.splits)
  qed
qed

lemma add_peer_zero:
  assumes "sigs_ok rt" and "bgpwatcher_view_iter_add_peer rt name ip asn = (rt1, 0)"
  shows "rt1 = rt"
proof (cases "map_of (peersigns rt) (name, ip, asn)")
  case None
  show ?thesis
  proof (cases "length (peersigns rt) + 1 < 2 ^ 16")
    case True
    then have "length (peersigns rt) < 2 ^ 16 - 1" by simp
    from of_nat_Suc_16_nonzero [OF this] None True assms(2) show ?thesis
      by (simp add: bgpwatcher_view_iter_add_peer_def Let_def del: of_nat_Suc)
  next
    case False
    with None assms(2) show ?thesis
      by (simp add: bgpwatcher_view_iter_add_peer_def)
  qed
next
  case (Some k)
  then have "((name, ip, asn), k) \<in> set (peersigns rt)" by (rule map_of_SomeD)
  from sigs_ok_nonzero [OF assms(1) this] Some assms(2) show ?thesis
    by (auto simp: bgpwatcher_view_iter_add_peer_def split: if_splits)
qed

lemma add_peer_props:
  assumes "sigs_ok rt" and "bgpwatcher_view_iter_add_peer rt name ip asn = (rt1, peer_id)"
    and "peer_id \<noteq> 0"
  shows "sigs_ok rt1 \<and> ((name, ip, asn), peer_id) \<in> set (peersigns rt1) \<and>
         set (peersigns rt) \<subseteq> set (peersigns rt1) \<and>
         collectors rt1 = collectors rt \<and>
         (view_peers rt1 = view_peers rt \<or>
          view_peers rt1 = AList.update peer_id perpeer_info_create (view_peers rt))"
proof (cases "map_of (peersigns rt) (name, ip, asn)")
  case None
  with assms(2,3) have len: "length (peersigns rt) + 1 < 2 ^ 16"
    and pid: "peer_id = of_nat (length (peersigns rt) + 1)"
    and rt1: "rt1 = rt\<lparr>peersigns := peersigns rt @ [((name, ip, asn), peer_id)],
                  view_peers := AList.update peer_id perpeer_info_create (view_peers rt)\<rparr>"
    by (auto simp: bgpwatcher_view_iter_add_peer_def Let_def split: if_splits)
  have "sigs_ok rt1"
    unfolding sigs_ok_def
  proof (intro conjI allI impI)
    show "length (peersigns rt1) < 2 ^ 16" using len by (simp add: rt1)
    fix i assume "i < length (peersigns rt1)"
    then consider "i < length (peersigns rt)" | "i = length (peersigns rt)"
      by (auto simp: rt1 less_Suc_eq)
    then show "snd (peersigns rt1 ! i) = of_nat (Suc i)"
    proof cases
      case 1
      with assms(1) show ?thesis by (simp add: rt1 nth_append sigs_ok_def del: of_nat_Suc)
    next
      case 2
      then show ?thesis by (simp add: rt1 pid del: of_nat_Suc)
    qed
  qed
  then show ?thesis by (auto simp: rt1)
next
  case (Some k)
  then have "((name, ip, asn), k) \<in> set (peersigns rt)" by (rule map_of_SomeD)
  with Some assms show ?thesis
    by (auto simp: bgpwatcher_view_iter_add_peer_def sigs_ok_def split: if_splits)
qed

lemma process_elems_inv:
  assumes "sigs_ok rt" and "distinct (map fst (view_peers rt))"
    and "process_elems B record es rt c = Inr (ret, rt', c')"
  shows "sigs_ok rt' \<and> distinct (map fst (view_peers rt')) \<and>
         set (peersigns rt) \<subseteq> set (peersigns rt') \<and> collectors rt' = collectors rt \<and>
         collector_peerids c \<subseteq> collector_peerids c' \<and>
         (\<forall>k \<in> collector_peerids c' - collector_peerids c.
             \<exists>ip asn. ((dump_collector record, ip, asn), k) \<in> set (peersigns rt')) \<and>
         untouched (collector_peerids c') (view_peers rt) (view_peers rt')"
  using assms
proof (induction es arbitrary: rt c)
  case Nil
  then show ?case by simp
next
  case (Cons e es)
  show ?case
  proof (cases "skip_elem e")
    case True
    with Cons.prems have "process_elems B record es rt c = Inr (ret, rt', c')" by simp
    from Cons.IH [OF Cons.prems(1,2) this] show ?thesis .
  next
    case False
    obtain rt1 pid where ap: "bgpwatcher_view_iter_add_peer rt (dump_collector record)
        (peer_address e) (peer_asnumber e) = (rt1, pid)"
      by (cases "bgpwatcher_view_iter_add_peer rt (dump_collector record)
        (peer_address e) (peer_asnumber e)")
    show ?thesis
    proof (cases "pid = 0")
      case True
      with ap Cons.prems(1) have "rt1 = rt" by (simp add: add_peer_zero)
      with Cons.prems False ap True show ?thesis by simp
    next
      case nz: False
      let ?c1 = "c\<lparr>collector_peerids := insert pid (collector_peerids c)\<rparr>"
      from Cons.prems(3) False ap nz obtain p rt3 where
        p: "map_of (view_peers rt1) pid = Some p"
        and el: "apply_elem B (set_peer pid (p\<lparr>last_ts := record_time record\<rparr>) rt1) ?c1 pid e
                   (record_time record) = Inr rt3"
        and rest: "process_elems B record es rt3 ?c1 = Inr (ret, rt', c')"
        by (auto simp: Let_def split: option.splits sum.splits)
      from add_peer_props [OF Cons.prems(1) ap nz]
      have s1: "sigs_ok rt1" and own: "((dump_collector record, peer_address e, peer_asnumber e), pid) \<in> set (peersigns rt1)"
        and sub1: "set (peersigns rt) \<subseteq> set (peersigns rt1)" and col1: "collectors rt1 = collectors rt"
        and peers1: "view_peers rt1 = view_peers rt \<or>
          view_peers rt1 = AList.update pid perpeer_info_create (view_peers rt)"
        by simp_all
      from apply_elem_peers [OF el] obtain p' where
        peers3: "view_peers rt3 = AList.update pid p' (view_peers rt1)"
        and sig3: "peersigns rt3 = peersigns rt1" and col3: "collectors rt3 = collectors rt1"
        by (auto simp: set_peer_def)
      from peers1 peers3 have peers3': "view_peers rt3 = AList.update pid p' (view_peers rt)"
        by auto
      have s3: "sigs_ok rt3" using s1 sig3 by (simp add: sigs_ok_def)
      have d3: "distinct (map fst (view_peers rt3))"
        using Cons.prems(2) by (simp add: peers3' distinct_update)
      from Cons.IH [OF s3 d3 rest]
      have ih: "sigs_ok rt'" "distinct (map fst (view_peers rt'))"
        "set (peersigns rt3) \<subseteq> set (peersigns rt')" "collectors rt' = collectors rt3"
        "collector_peerids ?c1 \<subseteq> collector_peerids c'"
        "\<forall>k \<in> collector_peerids c' - collector_peerids ?c1.
             \<exists>ip asn. ((dump_collector record, ip, asn), k) \<in> set (peersigns rt')"
        "untouched (collector_peerids c') (view_peers rt3) (view_peers rt')"
        by simp_all
      from ih(5) have pin: "pid \<in> collector_peerids c'" by auto
      have u: "untouched (collector_peerids c') (view_peers rt) (view_peers rt')"
        using untouched_update [OF pin, of "view_peers rt" p'] ih(7)
        by (simp add: peers3') (rule untouched_trans)
      have new: "\<forall>k \<in> collector_peerids c' - collector_peerids c.
             \<exists>ip asn. ((dump_collector record, ip, asn), k) \<in> set (peersigns rt')"
      proof
        fix k assume k: "k \<in> collector_peerids c' - collector_peerids c"
        show "\<exists>ip asn. ((dump_collector record, ip, asn), k) \<in> set (peersigns rt')"
        proof (cases "k = pid")
          case True
          from own sig3 ih(3) have "((dump_collector record, peer_address e, peer_asnumber e), pid) \<in> set (peersigns rt')"
            by auto
          with True show ?thesis by blast
        next
          case False
          with k have "k \<in> collector_peerids c' - collector_peerids ?c1" by simp
          with ih(6) show ?thesis by blast
        qed
      qed
      from ih sub1 sig3 col1 col3 u new show ?thesis by auto
    qed
  qed
qed

lemma pfx_peers_loop_untouched:
  "untouched (collector_peerids c) ps (fst (end_of_valid_rib_pfx_peers B c ps cells))"
proof (induction cells arbitrary: ps)
  case Nil
  then show ?case by simp
next
  case (Cons e rest)
  show ?case
  proof (cases "map_of ps (snd (fst e))")
    case None
    with Cons.IH [of ps] show ?thesis by (simp add: case_prod_beta)
  next
    case (Some p)
    show ?thesis
    proof (cases "snd (fst e) \<in> collector_peerids c \<and> bgp_time_uc_rib_start p \<noteq> 0")
      case True
      then have "untouched (collector_peerids c) ps
          (AList.update (snd (fst e)) (fst (end_of_valid_rib_pfx_peer B p (snd e))) ps)"
        by (simp add: untouched_update)
      from untouched_trans [OF this Cons.IH] Some True show ?thesis
        by (simp add: case_prod_beta)
    next
      case False
      with Cons.IH [of ps] Some show ?thesis by (auto simp: case_prod_beta)
    qed
  qed
qed

lemma end_of_valid_rib_frame:
  assumes "end_of_valid_rib B rt c = (rt', c')"
  shows "map fst (view_peers rt') = map fst (view_peers rt) \<and>
         untouched (collector_peerids c) (view_peers rt) (view_peers rt') \<and>
         peersigns rt' = peersigns rt \<and> collectors rt' = collectors rt \<and>
         collector_peerids c' = collector_peerids c"
proof -
  let ?l1 = "end_of_valid_rib_pfx_peers B c (view_peers rt) (view_pfx_peers rt)"
  from assms have p: "view_peers rt' = map (rib_peer c) (fst ?l1)"
    and o: "peersigns rt' = peersigns rt" "collectors rt' = collectors rt"
      "collector_peerids c' = collector_peerids c"
    by (auto simp: end_of_valid_rib_def case_prod_beta Let_def peers_loop_peers)
  have "untouched (collector_peerids c) (fst ?l1) (map (rib_peer c) (fst ?l1))"
    by (rule untouched_map) (simp_all add: rib_peer_def)
  with pfx_peers_loop_untouched [of c "view_peers rt" B "view_pfx_peers rt"]
  have "untouched (collector_peerids c) (view_peers rt) (view_peers rt')"
    unfolding p by (rule untouched_trans)
  moreover have "map fst (map (rib_peer c) (fst ?l1)) = map fst (fst ?l1)"
    by (rule keys_map) simp
  then have "map fst (view_peers rt') = map fst (view_peers rt)"
    unfolding p by (simp only: pfx_peers_loop_keys)
  ultimately show ?thesis using o by simp
qed

lemma stop_uc_process_frame:
  assumes "stop_uc_process B rt c = (rt', c')"
  shows "map fst (view_peers rt') = map fst (view_peers rt) \<and>
         untouched (collector_peerids c) (view_peers rt) (view_peers rt') \<and>
         peersigns rt' = peersigns rt \<and> collectors rt' = collectors rt \<and>
         collector_peerids c' = collector_peerids c"
proof -
  from assms have p: "view_peers rt' = map (stop_uc_peer c) (view_peers rt)"
    and o: "peersigns rt' = peersigns rt" "collectors rt' = collectors rt"
      "collector_peerids c' = collector_peerids c"
    by (auto simp: stop_uc_process_def)
  have "untouched (collector_peerids c) (view_peers rt) (map (stop_uc_peer c) (view_peers rt))"
    by (rule untouched_map) (simp_all add: stop_uc_peer_def)
  moreover have "map fst (map (stop_uc_peer c) (view_peers rt)) = map fst (view_peers rt)"
    by (rule keys_map) (simp add: stop_uc_peer_def)
  ultimately show ?thesis using p o by simp
qed

lemma corrupted_frame:
  assumes "collector_process_corrupted_message B rt c record = Inr (ret, rt', c')"
  shows "map fst (view_peers rt') = map fst (view_peers rt) \<and>
         untouched (collector_peerids c) (view_peers rt) (view_peers rt') \<and>
         peersigns rt' = peersigns rt \<and> collectors rt' = collectors rt \<and> c' = c"
proof -
  from assms have p: "view_peers rt' = map (corrupted_peer rt c record) (view_peers rt)"
    and o: "peersigns rt' = peersigns rt" "collectors rt' = collectors rt" "c' = c"
    by (auto simp: collector_process_corrupted_message_def split: if_splits)
  have "untouched (collector_peerids c) (view_peers rt) (map (corrupted_peer rt c record) (view_peers rt))"
    by (rule untouched_map) (simp_all add: corrupted_peer_def cor_affected_def cor_uc_affected_def Let_def)
  moreover have "map fst (map (corrupted_peer rt c record) (view_peers rt)) = map fst (view_peers rt)"
    by (rule keys_map) (simp add: corrupted_peer_def Let_def)
  ultimately show ?thesis using p o by simp
qed

lemma valid_bgpinfo_inv:
  assumes "sigs_ok rt" and "distinct (map fst (view_peers rt))"
    and "collector_process_valid_bgpinfo B rt c record = Inr (ret, rt', c')"
  shows "sigs_ok rt' \<and> distinct (map fst (view_peers rt')) \<and>
         set (peersigns rt) \<subseteq> set (peersigns rt') \<and> collectors rt' = collectors rt \<and>
         collector_peerids c \<subseteq> collector_peerids c' \<and>
         (\<forall>k \<in> collector_peerids c' - collector_peerids c.
             \<exists>ip asn. ((dump_collector record, ip, asn), k) \<in> set (peersigns rt')) \<and>
         untouched (collector_peerids c') (view_peers rt) (view_peers rt')"
proof -
  obtain rt1 c1 where pre: "(if dump_type record = BGPSTREAM_RIB \<and> dump_pos record = BGPSTREAM_DUMP_START then
               (let (rt', c') = (if bgp_time_uc_rib_dump_time c \<noteq> 0
                                 then stop_uc_process B rt c else (rt, c))
                in (rt', c'\<lparr>bgp_time_uc_rib_dump_time := dump_time record,
                            bgp_time_uc_rib_start_time := record_time record\<rparr>))
             else (rt, c)) = (rt1, c1)"
    by (metis surj_pair)
  have f1: "map fst (view_peers rt1) = map fst (view_peers rt) \<and>
         untouched (collector_peerids c) (view_peers rt) (view_peers rt1) \<and>
         peersigns rt1 = peersigns rt \<and> collectors rt1 = collectors rt \<and>
         collector_peerids c1 = collector_peerids c"
  proof (cases "dump_type record = BGPSTREAM_RIB \<and> dump_pos record = BGPSTREAM_DUMP_START \<and>
      bgp_time_uc_rib_dump_time c \<noteq> 0")
    case True
    with pre have "stop_uc_process B rt c = (rt1, snd (stop_uc_process B rt c))"
      and "collector_peerids c1 = collector_peerids (snd (stop_uc_process B rt c))"
      by (auto simp: case_prod_beta Let_def)
    with stop_uc_process_frame [of B rt c rt1 "snd (stop_uc_process B rt c)"] show ?thesis by simp
  next
    case False
    with pre show ?thesis by (auto split: if_splits)
  qed
  then have s1: "sigs_ok rt1" and d1: "distinct (map fst (view_peers rt1))"
    using assms(1,2) by (simp_all add: sigs_ok_def)
  show ?thesis
  proof (cases "dump_type record = BGPSTREAM_RIB \<and> dump_time record \<noteq> bgp_time_uc_rib_dump_time c1")
    case True
    with assms(3) pre have "rt' = rt1" "c' = c1"
      by (simp_all add: collector_process_valid_bgpinfo_def)
    with f1 s1 d1 show ?thesis by simp
  next
    case False
    with assms(3) pre obtain r2 rt2 c2 where
      pe: "process_elems B record (elems record) rt1 c1 = Inr (r2, rt2, c2)"
      by (auto simp: collector_process_valid_bgpinfo_def split: sum.splits)
    from process_elems_inv [OF s1 d1 pe]
    have i2: "sigs_ok rt2" "distinct (map fst (view_peers rt2))"
      "set (peersigns rt1) \<subseteq> set (peersigns rt2)" "collectors rt2 = collectors rt1"
      "collector_peerids c1 \<subseteq> collector_peerids c2"
      "\<forall>k \<in> collector_peerids c2 - collector_peerids c1.
             \<exists>ip asn. ((dump_collector record, ip, asn), k) \<in> set (peersigns rt2)"
      "untouched (collector_peerids c2) (view_peers rt1) (view_peers rt2)"
      by simp_all
    from f1 i2(5) have "untouched (collector_peerids c2) (view_peers rt) (view_peers rt1)"
      by (auto intro: untouched_mono)
    from this i2(7) have u2: "untouched (collector_peerids c2) (view_peers rt) (view_peers rt2)"
      by (rule untouched_trans)
    show ?thesis
    proof (cases "r2 = 0 \<and> dump_type record = BGPSTREAM_RIB \<and> dump_pos record = BGPSTREAM_DUMP_END")
      case True
      with assms(3) pre pe False have e: "end_of_valid_rib B rt2 c2 = (rt', c')"
        by (auto simp: collector_process_valid_bgpinfo_def case_prod_beta)
      from end_of_valid_rib_frame [OF e]
      have f3: "map fst (view_peers rt') = map fst (view_peers rt2)"
        "untouched (collector_peerids c2) (view_peers rt2) (view_peers rt')"
        "peersigns rt' = peersigns rt2" "collectors rt' = collectors rt2"
        "collector_peerids c' = collector_peerids c2" by simp_all
      from u2 f3(2) have "untouched (collector_peerids c2) (view_peers rt) (view_peers rt')"
        by (rule untouched_trans)
      with f1 i2 f3 show ?thesis by (simp add: sigs_ok_def)
    next
      case no_end: False
      with assms(3) pre pe False have "rt' = rt2" "c' = c2"
        by (auto simp: collector_process_valid_bgpinfo_def split: if_splits)
      with f1 i2 u2 show ?thesis by simp
    qed
  qed
qed

lemma expected_state_cong:
  assumes "collector_peerids c2 = collector_peerids c1" and "view_peers rt2 = view_peers rt1"
  shows "expected_state rt2 c2 = expected_state rt1 c1"
  using assms by (simp add: expected_state_def active_member_def known_member_def)

lemma expected_state_untouched:
  assumes "untouched S (view_peers rt) (view_peers rt')" and "collector_peerids c \<inter> S = {}"
  shows "expected_state rt' c = expected_state rt c"
proof -
  have m: "{e \<in> set ps. fst e \<in> collector_peerids c} =
           {e \<in> set (filter (\<lambda>e. fst e \<notin> S) ps). fst e \<in> collector_peerids c}" for ps :: peer_table
    using assms(2) by auto
  from assms(1) have "{e \<in> set (view_peers rt'). fst e \<in> collector_peerids c} =
        {e \<in> set (view_peers rt). fst e \<in> collector_peerids c}"
    unfolding untouched_def using m [of "view_peers rt"] m [of "view_peers rt'"] by simp
  then have "(\<exists>e \<in> set (view_peers rt'). fst e \<in> collector_peerids c \<and> P e) \<longleftrightarrow>
             (\<exists>e \<in> set (view_peers rt). fst e \<in> collector_peerids c \<and> P e)" for P
    by blast
  then show ?thesis
    by (simp add: expected_state_def active_member_def known_member_def)
qed

lemma step_inv:
  assumes inv: "engine_inv rt"
    and c: "c = (case collectors rt name of None \<Rightarrow> new_collector | Some c0 \<Rightarrow> c0)"
    and s1: "sigs_ok rt1" and d1: "distinct (map fst (view_peers rt1))"
    and sub: "set (peersigns rt) \<subseteq> set (peersigns rt1)"
    and col: "\<forall>n. n \<noteq> name \<longrightarrow> collectors rt1 n = collectors rt n"
    and ids: "collector_peerids c \<subseteq> collector_peerids c1"
    and new: "\<forall>k \<in> collector_peerids c1 - collector_peerids c.
                \<exists>ip asn. ((name, ip, asn), k) \<in> set (peersigns rt1)"
    and unt: "untouched (collector_peerids c1) (view_peers rt) (view_peers rt1)"
    and c2: "collector_peerids c2 = collector_peerids c1"
  shows "engine_inv (rt1\<lparr>collectors :=
            (collectors rt1)(name \<mapsto> update_collector_state W now rt1 c2 record)\<rparr>)"
proof -
  let ?c' = "update_collector_state W now rt1 c2 record"
  let ?rt' = "rt1\<lparr>collectors := (collectors rt1)(name \<mapsto> ?c')\<rparr>"
  have ids': "collector_peerids ?c' = collector_peerids c1"
    by (simp add: update_collector_state_def Let_def case_prod_beta c2)
  from inv have own: "owners_ok rt" and st: "\<forall>n c0. collectors rt n = Some c0 \<longrightarrow> state c0 = expected_state rt c0"
    by (simp_all add: engine_inv_def)
  have own_c: "\<exists>ip asn. ((name, ip, asn), k) \<in> set (peersigns rt1)" if "k \<in> collector_peerids c1" for k
  proof (cases "k \<in> collector_peerids c")
    case True
    then obtain c0 where "collectors rt name = Some c0" "c = c0"
      using c by (cases "collectors rt name") (auto simp: new_collector_def)
    with True own sub show ?thesis unfolding owners_ok_def by blast
  next
    case False
    with that new show ?thesis by blast
  qed
  have own': "owners_ok ?rt'"
    unfolding owners_ok_def
  proof (intro allI impI)
    fix n c0 k assume a: "collectors ?rt' n = Some c0 \<and> k \<in> collector_peerids c0"
    show "\<exists>ip asn. ((n, ip, asn), k) \<in> set (peersigns ?rt')"
    proof (cases "n = name")
      case True
      with a ids' own_c [of k] show ?thesis by simp
    next
      case False
      with a col have "collectors rt n = Some c0" by simp
      with a own sub show ?thesis unfolding owners_ok_def by (simp, blast)
    qed
  qed
  have st': "state c0 = expected_state ?rt' c0" if a: "collectors ?rt' n = Some c0" for n c0
  proof (cases "n = name")
    case True
    with a have "c0 = ?c'" by simp
    moreover have "state ?c' = expected_state rt1 ?c'"
      by (rule update_collector_state_expected [OF d1])
    moreover have "expected_state ?rt' ?c' = expected_state rt1 ?c'"
      by (rule expected_state_cong) simp_all
    ultimately show ?thesis by simp
  next
    case False
    with a col have old: "collectors rt n = Some c0" by simp
    have disj: "collector_peerids c0 \<inter> collector_peerids c1 = {}"
    proof (rule ccontr)
      assume "collector_peerids c0 \<inter> collector_peerids c1 \<noteq> {}"
      then obtain k where k0: "k \<in> collector_peerids c0" and k1: "k \<in> collector_peerids c1" by blast
      from own old k0 sub obtain ip asn where "((n, ip, asn), k) \<in> set (peersigns rt1)"
        unfolding owners_ok_def by blast
      moreover from own_c [OF k1] obtain ip' asn' where "((name, ip', asn'), k) \<in> set (peersigns rt1)"
        by blast
      ultimately have "(n, ip, asn) = (name, ip', asn')" by (rule sigs_ok_unique [OF s1])
      with False show False by simp
    qed
    have "expected_state ?rt' c0 = expected_state rt1 c0"
      by (rule expected_state_cong) simp_all
    also have "\<dots> = expected_state rt c0"
      by (rule expected_state_untouched [OF unt disj])
    finally show ?thesis using st old by simp
  qed
  from d1 s1 own' st' show ?thesis
    by (simp add: engine_inv_def sigs_ok_def)
qed

lemma get_collector_data_props:
  assumes "get_collector_data rt name = (rt0, c)"
  shows "c = (case collectors rt name of None \<Rightarrow> new_collector | Some c0 \<Rightarrow> c0) \<and>
         peersigns rt0 = peersigns rt \<and> view_peers rt0 = view_peers rt \<and>
         (\<forall>n. n \<noteq> name \<longrightarrow> collectors rt0 n = collectors rt n)"
  using assms by (auto simp: get_collector_data_def split: option.splits)

lemma fold_record_inv:
  assumes inv: "engine_inv rt" and g: "get_collector_data rt (dump_collector record) = (rt0, c)"
    and f: "fold_record W now B rt0 c record = Inr (ret, rt')"
  shows "engine_inv rt'"
proof -
  from get_collector_data_props [OF g]
  have c: "c = (case collectors rt (dump_collector record) of None \<Rightarrow> new_collector | Some c0 \<Rightarrow> c0)"
    and sig0: "peersigns rt0 = peersigns rt" and p0: "view_peers rt0 = view_peers rt"
    and col0: "\<forall>n. n \<noteq> dump_collector record \<longrightarrow> collectors rt0 n = collectors rt n"
    by simp_all
  from inv sig0 p0 have s0: "sigs_ok rt0" and d0: "distinct (map fst (view_peers rt0))"
    by (simp_all add: engine_inv_def sigs_ok_def)
  show ?thesis
  proof (cases "status record = BGPSTREAM_RECORD_STATUS_VALID_RECORD")
    case True
    with f obtain r1 rt1 c1 where
      v: "collector_process_valid_bgpinfo B rt0 c record = Inr (r1, rt1, c1)"
      and r: "rt' = rt1\<lparr>collectors := (collectors rt1)(dump_collector record \<mapsto>
                 update_collector_state W now rt1 (c1\<lparr>valid_record_cnt := valid_record_cnt c1 + 1\<rparr>) record)\<rparr>"
      by (auto simp: fold_record_def store_collector_def split: sum.splits)
    from valid_bgpinfo_inv [OF s0 d0 v]
    have i: "sigs_ok rt1" "distinct (map fst (view_peers rt1))"
      "set (peersigns rt0) \<subseteq> set (peersigns rt1)" "collectors rt1 = collectors rt0"
      "collector_peerids c \<subseteq> collector_peerids c1"
      "\<forall>k \<in> collector_peerids c1 - collector_peerids c.
             \<exists>ip asn. ((dump_collector record, ip, asn), k) \<in> set (peersigns rt1)"
      "untouched (collector_peerids c1) (view_peers rt0) (view_peers rt1)"
      by simp_all
    show ?thesis unfolding r
      by (rule step_inv [OF inv c i(1,2) _ _ i(5,6)])
        (use i sig0 p0 col0 in simp_all)
  next
    case nv: False
    show ?thesis
    proof (cases "status record = BGPSTREAM_RECORD_STATUS_CORRUPTED_SOURCE \<or>
                  status record = BGPSTREAM_RECORD_STATUS_CORRUPTED_RECORD")
      case True
      with f obtain r1 rt1 c1 where
        v: "collector_process_corrupted_message B rt0 c record = Inr (r1, rt1, c1)"
        and r: "rt' = rt1\<lparr>collectors := (collectors rt1)(dump_collector record \<mapsto>
                 update_collector_state W now rt1 (c1\<lparr>corrupted_record_cnt := corrupted_record_cnt c1 + 1\<rparr>) record)\<rparr>"
        by (auto simp: fold_record_def store_collector_def split: sum.splits)
      from corrupted_frame [OF v]
      have i: "map fst (view_peers rt1) = map fst (view_peers rt0)"
         "untouched (collector_peerids c) (view_peers rt0) (view_peers rt1)"
         "peersigns rt1 = peersigns rt0" "collectors rt1 = collectors rt0" "c1 = c"
        by simp_all
      from i s0 d0 have s1: "sigs_ok rt1" and d1: "distinct (map fst (view_peers rt1))"
        by (simp_all add: sigs_ok_def)
      show ?thesis unfolding r
        by (rule step_inv [OF inv c s1 d1, where ?c1.0 = c])
          (use i sig0 p0 col0 in simp_all)
    next
      case False
      with nv f have r: "rt' = rt0\<lparr>collectors := (collectors rt0)(dump_collector record \<mapsto>
                 update_collector_state W now rt0
                   ((if record_time record < bgp_time_last c
                     then c\<lparr>bgp_time_last := record_time record\<rparr> else c)
                    \<lparr>empty_record_cnt := empty_record_cnt
                       (if record_time record < bgp_time_last c
                        then c\<lparr>bgp_time_last := record_time record\<rparr> else c) + 1\<rparr>) record)\<rparr>"
        by (cases "status record") (auto simp: fold_record_def store_collector_def Let_def)
      show ?thesis unfolding r
        by (rule step_inv [OF inv c s0 d0, where ?c1.0 = c])
          (use sig0 p0 col0 in simp_all)
    qed
  qed
qed

lemma process_record_inv:
  assumes "engine_inv rt" and "routingtables_process_record W now B rt record = Inr (ret, rt')"
  shows "engine_inv rt'"
proof -
  obtain rt0 c where g: "get_collector_data rt (dump_collector record) = (rt0, c)"
    by (cases "get_collector_data rt (dump_collector record)")
  show ?thesis
  proof (cases "record_time record < bgp_time_ref_rib_start_time c \<and>
         bgp_time_uc_rib_dump_time c \<noteq> 0")
    case True
    then have "collectors rt (dump_collector record) \<noteq> None"
      using g by (auto simp: get_collector_data_def new_collector_def split: option.splits)
    with g have "rt0 = rt" by (auto simp: get_collector_data_def)
    with True g assms show ?thesis by (simp add: routingtables_process_record_def)
  next
    case False
    with g assms(2) have "fold_record W now B rt0 c record = Inr (ret, rt')"
      by (auto simp: routingtables_process_record_def)
    from fold_record_inv [OF assms(1) g this] show ?thesis .
  qed
qed

lemma create_inv: "engine_inv routingtables_create"
  by (simp add: engine_inv_def routingtables_create_def sigs_ok_def owners_ok_def)

lemma reachable_inv: "reachable W B rt \<Longrightarrow> engine_inv rt"
  by (induction rule: reachable.induct) (auto intro: create_inv process_record_inv)

text \<open>
  C8. After every call of \<^verbatim>\<open>routingtables_process_record\<close> (that is, in every engine
  reached from \<^verbatim>\<open>routingtables_create\<close> by calls that return), every collector \<open>C\<close> is
  up if and only if at least one peer of \<open>C\<close> is active, is down if no peer of \<open>C\<close> is
  active but at least one has an FSM state other than unknown, and is unknown otherwise.
\<close>

theorem collector_state_after_every_record:
  assumes "reachable W B rt" and "collectors rt name = Some c"
  shows "state c =
     (if \<exists>e \<in> set (view_peers rt).
           fst e \<in> collector_peerids c \<and> peer_state (snd e) = BGPWATCHER_VIEW_FIELD_ACTIVE
      then ROUTINGTABLES_COLLECTOR_STATE_UP
      else if \<exists>e \<in> set (view_peers rt).
           fst e \<in> collector_peerids c \<and> bgp_fsm_state (snd e) \<noteq> BGPSTREAM_ELEM_PEERSTATE_UNKNOWN
      then ROUTINGTABLES_COLLECTOR_STATE_DOWN
      else ROUTINGTABLES_COLLECTOR_STATE_UNKNOWN)"
  using reachable_inv [OF assms(1)] assms(2)
  by (simp add: engine_inv_def expected_state_def active_member_def known_member_def)

theorem collector_state_after_every_record_witness:
  "\<exists>ret rt' c. routingtables_process_record 3600 0 4200000000 routingtables_create
                  ex_state_record = Inr (ret, rt') \<and>
     reachable 3600 4200000000 rt' \<and>
     collectors rt' ''rrc00'' = Some c \<and>
     state c = ROUTINGTABLES_COLLECTOR_STATE_UP"
proof -
  have "\<exists>ret rt' c. routingtables_process_record 3600 0 4200000000 routingtables_create
                  ex_state_record = Inr (ret, rt') \<and> collectors rt' ''rrc00'' = Some c \<and>
          (\<exists>e \<in> set (view_peers rt'). fst e \<in> collector_peerids c \<and>
              peer_state (snd e) = BGPWATCHER_VIEW_FIELD_ACTIVE)"
    by (simp add: routingtables_process_record_def get_collector_data_def fold_record_def
        collector_process_valid_bgpinfo_def skip_elem_def bgpwatcher_view_iter_add_peer_def
        apply_elem_def apply_state_update_def set_peer_def store_collector_def
        update_collector_state_def count_peer_def routingtables_create_def ex_state_record_def
        ex_record_def ex_elem_def new_collector_def perpeer_info_create_def Let_def)
  then obtain ret rt' c where
    run: "routingtables_process_record 3600 0 4200000000 routingtables_create
                  ex_state_record = Inr (ret, rt')"
    and c: "collectors rt' ''rrc00'' = Some c"
    and act: "\<exists>e \<in> set (view_peers rt'). fst e \<in> collector_peerids c \<and>
              peer_state (snd e) = BGPWATCHER_VIEW_FIELD_ACTIVE"
    by blast
  have r: "reachable 3600 4200000000 rt'"
    by (rule reachable.processed [OF reachable.created run])
  from collector_state_after_every_record [OF r c] act
  have "state c = ROUTINGTABLES_COLLECTOR_STATE_UP" by simp
  with run r c show ?thesis by blast
qed


section \<open>The prefix index: insertion and exact search\<close>

lemma drop_bit_0x80: "k < 8 \<Longrightarrow> drop_bit k (0x80 :: 8 word) = 2 ^ (7 - k)"
proof -
  assume "k < 8"
  then consider "k = 0" | "k = 1" | "k = 2" | "k = 3" | "k = 4" | "k = 5" | "k = 6" | "k = 7"
    by linarith
  then show ?thesis by cases simp_all
qed

lemma BIT_TEST_bit: "k < 8 \<Longrightarrow> BIT_TEST w (drop_bit k 0x80) \<longleftrightarrow> bit w (7 - k)"
  by (simp add: BIT_TEST_def drop_bit_0x80 and_exp_eq_0_iff_not_bit)

lemma addr_bit_bit: "addr_bit addr b \<longleftrightarrow> bit (addr ! (b div 8)) (7 - b mod 8)"
  by (simp add: addr_bit_def BIT_TEST_bit)

lemma byte_eq_iff: "(x :: 8 word) = y \<longleftrightarrow> (\<forall>k<8. bit x (7 - k) = bit y (7 - k))"
proof
  assume r: "\<forall>k<8. bit x (7 - k) = bit y (7 - k)"
  show "x = y"
  proof (rule bit_word_eqI)
    fix n assume "n < LENGTH(8)"
    then have "7 - n < 8" "7 - (7 - n) = n" by simp_all
    with r show "bit x n = bit y n" by metis
  qed
qed simp


lemma div8_within_byte: "\<not> b < i * 8 \<Longrightarrow> b < i * 8 + j \<Longrightarrow> j < 8 \<Longrightarrow> (b::nat) div 8 = i \<and> b mod 8 < j"
proof -
  assume a: "\<not> b < i * 8" "b < i * 8 + j" "j < 8"
  define k where "k = b - i * 8"
  with a have "b = i * 8 + k" "k < j" by simp_all
  with a(3) show ?thesis by simp
qed




lemma agree_mono: "agree addr dest n \<Longrightarrow> m \<le> n \<Longrightarrow> agree addr dest m"
  by (simp add: agree_def)

lemma agree_refl: "agree addr addr n"
  by (simp add: agree_def)

lemma xor_zero_eq: "(a :: 8 word) XOR b = 0 \<Longrightarrow> a = b"
proof -
  assume "a XOR b = 0"
  then have "(a XOR b) XOR b = b" by simp
  then show "a = b" by (simp add: xor.assoc)
qed

lemma first_set_bit_props:
  "j0 \<le> 8 \<Longrightarrow>
   j0 \<le> first_set_bit r j0 \<and> first_set_bit r j0 \<le> 8 \<and>
   (\<forall>k. j0 \<le> k \<and> k < first_set_bit r j0 \<longrightarrow> \<not> bit r (7 - k)) \<and>
   (first_set_bit r j0 < 8 \<longrightarrow> bit r (7 - first_set_bit r j0))"
proof (induction r j0 rule: first_set_bit.induct)
  case (1 r j)
  show ?case
  proof (cases "j < 8")
    case False
    then have "first_set_bit r j = j" by (simp add: first_set_bit.simps [of r j])
    with False 1(2) show ?thesis by auto
  next
    case j: True
    show ?thesis
    proof (cases "BIT_TEST r (drop_bit j 0x80)")
      case True
      with j have "first_set_bit r j = j" "bit r (7 - j)"
        by (simp_all add: first_set_bit.simps [of r j] BIT_TEST_bit)
      with j show ?thesis by auto
    next
      case False
      with j have e: "first_set_bit r j = first_set_bit r (Suc j)"
        by (simp add: first_set_bit.simps [of r j])
      from j have "Suc j \<le> 8" by simp
      from 1(1) [OF j False this] have ih:
        "Suc j \<le> first_set_bit r (Suc j)" "first_set_bit r (Suc j) \<le> 8"
        "\<forall>k. Suc j \<le> k \<and> k < first_set_bit r (Suc j) \<longrightarrow> \<not> bit r (7 - k)"
        "first_set_bit r (Suc j) < 8 \<longrightarrow> bit r (7 - first_set_bit r (Suc j))"
        by blast+
      from False j have nb: "\<not> bit r (7 - j)" by (simp add: BIT_TEST_bit)
      have "\<not> bit r (7 - k)" if "j \<le> k \<and> k < first_set_bit r (Suc j)" for k
      proof (cases "k = j")
        case True with nb show ?thesis by simp
      next
        case False with that have "Suc j \<le> k \<and> k < first_set_bit r (Suc j)" by simp
        with ih(3) show ?thesis by blast
      qed
      with ih show ?thesis unfolding e by auto
    qed
  qed
qed

lemma first_set_bit_found:
  assumes "(r :: 8 word) \<noteq> 0"
  shows "first_set_bit r 0 < 8"
proof (rule ccontr)
  assume "\<not> first_set_bit r 0 < 8"
  moreover from first_set_bit_props [of 0 r]
  have p: "first_set_bit r 0 \<le> 8" "\<forall>k. k < first_set_bit r 0 \<longrightarrow> \<not> bit r (7 - k)" by simp_all
  ultimately have "first_set_bit r 0 = 8" by simp
  with p(2) have "\<forall>k<8. bit r (7 - k) = bit (0 :: 8 word) (7 - k)" by simp
  then have "r = 0" by (rule byte_eq_iff [THEN iffD2])
  with assms show False by simp
qed

lemma differ_loop_props:
  "differ_bit = i * 8 \<Longrightarrow> agree addr test_addr (i * 8) \<Longrightarrow>
   \<exists>d. differ_loop addr test_addr check_bit i differ_bit = Inr d \<and>
       agree addr test_addr (clamp check_bit d) \<and>
       (clamp check_bit d < check_bit \<longrightarrow>
          addr_bit addr (clamp check_bit d) \<noteq> addr_bit test_addr (clamp check_bit d))"
proof (induction addr test_addr check_bit i differ_bit rule: differ_loop.induct)
  case (1 addr test_addr check_bit i differ_bit)
  show ?case
  proof (cases "i * 8 < check_bit")
    case False
    then have "differ_loop addr test_addr check_bit i differ_bit = Inr differ_bit"
      by (simp add: differ_loop.simps [of addr test_addr check_bit i differ_bit])
    moreover from False 1(2) have "clamp check_bit differ_bit = check_bit"
      by (simp add: clamp_def)
    moreover from False 1(3) have "agree addr test_addr check_bit"
      by (simp add: agree_mono)
    ultimately show ?thesis by simp
  next
    case lt: True
    define r where "r = (addr ! i) XOR (test_addr ! i)"
    show ?thesis
    proof (cases "r = 0")
      case True
      then have eq: "addr ! i = test_addr ! i" by (simp add: r_def xor_zero_eq)
      have ag: "agree addr test_addr (Suc i * 8)"
        unfolding agree_def
      proof (intro allI impI)
        fix b assume b: "b < Suc i * 8"
        show "addr_bit addr b = addr_bit test_addr b"
        proof (cases "b < i * 8")
          case True with 1(3) show ?thesis by (simp add: agree_def)
        next
          case False
          with b have "b div 8 = i" by simp
          with eq show ?thesis by (simp add: addr_bit_bit)
        qed
      qed
      from lt True have "differ_loop addr test_addr check_bit i differ_bit
                       = differ_loop addr test_addr check_bit (Suc i) ((i + 1) * 8)"
        by (simp add: differ_loop.simps [of addr test_addr check_bit i differ_bit] r_def)
      moreover from 1(1) [OF lt r_def True _ ag]
      have "\<exists>d. differ_loop addr test_addr check_bit (Suc i) ((i + 1) * 8) = Inr d \<and>
       agree addr test_addr (clamp check_bit d) \<and>
       (clamp check_bit d < check_bit \<longrightarrow>
          addr_bit addr (clamp check_bit d) \<noteq> addr_bit test_addr (clamp check_bit d))"
        by simp
      ultimately show ?thesis by simp
    next
      case nz: False
      define j where "j = first_set_bit r 0"
      from first_set_bit_found [OF nz] have j8: "j < 8" by (simp add: j_def)
      from first_set_bit_props [of 0 r] j8
      have jp: "\<forall>k. k < j \<longrightarrow> \<not> bit r (7 - k)" "bit r (7 - j)" by (simp_all add: j_def)
      from lt nz j8 have res: "differ_loop addr test_addr check_bit i differ_bit = Inr (i * 8 + j)"
        by (simp add: differ_loop.simps [of addr test_addr check_bit i differ_bit] r_def j_def Let_def)
      have rb: "bit r n \<longleftrightarrow> bit (addr ! i) n \<noteq> bit (test_addr ! i) n" for n
        by (simp add: r_def bit_xor_iff)
      have ag: "agree addr test_addr (i * 8 + j)"
        unfolding agree_def
      proof (intro allI impI)
        fix b assume b: "b < i * 8 + j"
        show "addr_bit addr b = addr_bit test_addr b"
        proof (cases "b < i * 8")
          case True with 1(3) show ?thesis by (simp add: agree_def)
        next
          case False
          with b j8 have d: "b div 8 = i" "b mod 8 < j" using div8_within_byte [of b i j] by simp_all
          with jp(1) rb show ?thesis by (simp add: addr_bit_bit)
        qed
      qed
      from j8 have dj: "(i * 8 + j) div 8 = i" "(i * 8 + j) mod 8 = j" by simp_all
      from jp(2) rb have "bit (addr ! i) (7 - j) \<noteq> bit (test_addr ! i) (7 - j)" by blast
      then have df: "addr_bit addr (i * 8 + j) \<noteq> addr_bit test_addr (i * 8 + j)"
        unfolding addr_bit_bit dj by simp
      have "agree addr test_addr (clamp check_bit (i * 8 + j))"
        using ag by (auto simp add: clamp_def intro: agree_mono)
      moreover have "clamp check_bit (i * 8 + j) < check_bit \<longrightarrow>
          addr_bit addr (clamp check_bit (i * 8 + j)) \<noteq> addr_bit test_addr (clamp check_bit (i * 8 + j))"
        using df by (auto simp add: clamp_def)
      ultimately show ?thesis using res by simp
    qed
  qed
qed

lemma find_differ_bit_props:
  "\<exists>d. find_differ_bit addr test_addr check_bit = Inr d \<and> d \<le> check_bit \<and>
       agree addr test_addr d \<and> (d < check_bit \<longrightarrow> addr_bit addr d \<noteq> addr_bit test_addr d)"
proof -
  have "agree addr test_addr (0 * 8)" by (simp add: agree_def)
  from differ_loop_props [OF _ this, of 0 check_bit]
  obtain d where d: "differ_loop addr test_addr check_bit 0 0 = Inr d"
     "agree addr test_addr (clamp check_bit d)"
     "clamp check_bit d < check_bit \<longrightarrow>
          addr_bit addr (clamp check_bit d) \<noteq> addr_bit test_addr (clamp check_bit d)"
    by auto
  have "find_differ_bit addr test_addr check_bit = Inr (clamp check_bit d)"
    by (simp add: find_differ_bit_def d(1) clamp_def)
  moreover have "clamp check_bit d \<le> check_bit" by (simp add: clamp_def)
  ultimately show ?thesis using d(2,3) by blast
qed


lemma dpath_length: "dpath h addr C root n \<Longrightarrow> n < length h"
  by (induction rule: dpath.induct) simp_all


lemma wf_heap_child:
  assumes "wf_heap h" "n < length h" "child_towards h addr n = Some c"
  shows "c < length h" "node_parent (h ! c) = Some n" "node_bit (h ! n) < node_bit (h ! c)"
proof -
  from assms(3) have "node_l (h ! n) = Some c \<or> node_r (h ! n) = Some c"
    by (simp add: child_towards_def split: if_splits)
  with assms(1,2) show "c < length h" "node_parent (h ! c) = Some n"
    "node_bit (h ! n) < node_bit (h ! c)"
    unfolding wf_heap_def by blast+
qed



lemma dpath_parent:
  assumes "wf_heap h" "dpath h addr C root m" "node_parent (h ! m) = Some p"
    "node_parent (h ! root) = None"
  shows "dpath h addr C root p \<and> C (h ! p) \<and> child_towards h addr p = Some m"
  using assms(2)
proof (cases rule: dpath.cases)
  case dpath_root
  with assms(3,4) show ?thesis by simp
next
  case (dpath_step m')
  from dpath_step(1) have "m' < length h" by (rule dpath_length)
  from wf_heap_child(2) [OF assms(1) this dpath_step(3)] assms(3) have "p = m'" by simp
  with dpath_step show ?thesis by simp
qed




lemma insert_descend_path:
  "insert_descend h addr bitlen n = Some s \<Longrightarrow>
   wf_heap h \<and> dpath h addr (keep_going bitlen) root n \<longrightarrow>
   dpath h addr (keep_going bitlen) root s"
proof (induction rule: insert_descend.raw_induct [rotated 1, consumes 1])
  case (1 f h addr bitlen n s)
  show ?case
  proof
    assume "wf_heap h \<and> dpath h addr (keep_going bitlen) root n"
    then have w: "wf_heap h" and p: "dpath h addr (keep_going bitlen) root n" by simp_all
    show "dpath h addr (keep_going bitlen) root s"
    proof (cases "child_towards h addr n")
      case None
      with 1(2) have "s = n"
        by (auto simp add: child_towards_def split: if_splits option.splits)
      with p show ?thesis by simp
    next
      case (Some c)
      show ?thesis
      proof (cases "keep_going bitlen (h ! n)")
        case False
        with 1(2) have "s = n" by (auto split: if_splits)
        with p show ?thesis by simp
      next
        case True
        with 1(2) Some have n: "n < length h" and r: "f h addr bitlen c = Some s"
          by (auto simp add: child_towards_def split: if_splits option.splits)
        from wf_heap_child(1) [OF w n Some] have "c < length h" .
        with p True Some have "dpath h addr (keep_going bitlen) root c"
          by (auto intro: dpath.dpath_step)
        with 1(1) [OF r] w show ?thesis by simp
      qed
    qed
  qed
qed

lemma insert_ascend_path:
  "insert_ascend h d n = Some a \<Longrightarrow>
   wf_heap h \<and> node_parent (h ! root) = None \<and> dpath h addr C root n \<longrightarrow>
   dpath h addr C root a \<and>
   (a = n \<or> (C (h ! a) \<and> child_towards h addr a \<noteq> None \<and> d \<le> node_bit (h ! a))) \<and>
   (node_parent (h ! a) = None \<or>
    (\<exists>g. node_parent (h ! a) = Some g \<and> g < length h \<and> node_bit (h ! g) < d))"
proof (induction rule: insert_ascend.raw_induct [rotated 1, consumes 1])
  case (1 f h d n a)
  show ?case
  proof
    assume "wf_heap h \<and> node_parent (h ! root) = None \<and> dpath h addr C root n"
    then have w: "wf_heap h" and r: "node_parent (h ! root) = None"
      and p: "dpath h addr C root n" by simp_all
    from 1(2) have n: "n < length h" by (simp split: if_splits)
    show "dpath h addr C root a \<and>
      (a = n \<or> (C (h ! a) \<and> child_towards h addr a \<noteq> None \<and> d \<le> node_bit (h ! a))) \<and>
      (node_parent (h ! a) = None \<or>
       (\<exists>g. node_parent (h ! a) = Some g \<and> g < length h \<and> node_bit (h ! g) < d))"
    proof (cases "node_parent (h ! n)")
      case None
      with 1(2) n have "a = n" by simp
      with p None show ?thesis by simp
    next
      case (Some g)
      with 1(2) n have g: "g < length h" by (simp split: if_splits)
      show ?thesis
      proof (cases "d \<le> node_bit (h ! g)")
        case False
        with 1(2) n Some g have "a = n" by simp
        with p Some g False show ?thesis by simp
      next
        case True
        with 1(2) n Some g have rec: "f h d g = Some a" by simp
        from dpath_parent [OF w p Some r]
        have pg: "dpath h addr C root g" "C (h ! g)" "child_towards h addr g = Some n" by simp_all
        from 1(1) [OF rec] w r pg(1)
        have ih: "dpath h addr C root a"
          "a = g \<or> (C (h ! a) \<and> child_towards h addr a \<noteq> None \<and> d \<le> node_bit (h ! a))"
          "node_parent (h ! a) = None \<or>
             (\<exists>g. node_parent (h ! a) = Some g \<and> g < length h \<and> node_bit (h ! g) < d)"
          by simp_all
        from ih(2) pg True
        have "C (h ! a) \<and> child_towards h addr a \<noteq> None \<and> d \<le> node_bit (h ! a)" by auto
        with ih(1,3) show ?thesis by simp
      qed
    qed
  qed
qed




lemma get_head_root:
  assumes "wf_tree pt" "bgpstream_patricia_get_head pt v = Some root"
  shows "root < length (heap pt)" "node_parent (heap pt ! root) = None"
proof -
  from assms(2) have "head4 pt = Some root \<or> head6 pt = Some root"
    by (cases v) (simp_all add: bgpstream_patricia_get_head_def)
  with assms(1) show "root < length (heap pt)" "node_parent (heap pt ! root) = None"
    unfolding wf_tree_def by blast+
qed





lemma insert_okD:
  assumes "bgpstream_patricia_tree_insert pt pfx = Some (Inr res)"
  shows "mask_len pfx \<le> BGPSTREAM_PATRICIA_MAXBITS"
    "pfx_version pfx \<noteq> BGPSTREAM_ADDR_VERSION_UNKNOWN"
  using assms by (simp_all add: bgpstream_patricia_tree_insert_def split: if_splits)

lemma insert_nonemptyD:
  assumes "bgpstream_patricia_tree_insert pt pfx = Some (Inr res)"
    and "bgpstream_patricia_get_head pt (pfx_version pfx) = Some root"
  obtains s d a where
    "insert_descend (heap pt) (pfx_addr pfx) (mask_len pfx) root = Some s"
    "\<not> is_glue (heap pt ! s)"
    "find_differ_bit (pfx_addr pfx) (pfx_addr (node_prefix (heap pt ! s)))
       (if node_bit (heap pt ! s) < mask_len pfx then node_bit (heap pt ! s) else mask_len pfx) = Inr d"
    "insert_ascend (heap pt) d s = Some a"
    "insert_at pt pfx (pfx_addr (node_prefix (heap pt ! s))) d a = Inr res"
proof -
  note ok = insert_okD [OF assms(1)]
  from assms ok obtain s where s: "insert_descend (heap pt) (pfx_addr pfx) (mask_len pfx) root = Some s"
    by (cases "insert_descend (heap pt) (pfx_addr pfx) (mask_len pfx) root")
       (simp_all add: bgpstream_patricia_tree_insert_def)
  from assms ok s have g: "\<not> is_glue (heap pt ! s)"
    by (simp add: bgpstream_patricia_tree_insert_def split: if_splits)
  let ?fd = "find_differ_bit (pfx_addr pfx) (pfx_addr (node_prefix (heap pt ! s)))
       (if node_bit (heap pt ! s) < mask_len pfx then node_bit (heap pt ! s) else mask_len pfx)"
  from assms ok s g obtain d where d: "?fd = Inr d"
    by (cases ?fd) (simp_all add: bgpstream_patricia_tree_insert_def Let_def)
  from assms ok s g d obtain a where a: "insert_ascend (heap pt) d s = Some a"
    by (cases "insert_ascend (heap pt) d s")
       (simp_all add: bgpstream_patricia_tree_insert_def Let_def)
  from assms ok s g d a have "insert_at pt pfx (pfx_addr (node_prefix (heap pt ! s))) d a = Inr res"
    by (simp add: bgpstream_patricia_tree_insert_def Let_def)
  with s g d a show ?thesis by (rule that)
qed


lemma node_create_eq:
  "bgpstream_patricia_node_create pt pfx = (pt1, new) \<Longrightarrow>
   new = length (heap pt) \<and>
   heap pt1 = heap pt @ [\<lparr>node_bit = mask_len pfx, node_prefix = pfx, node_l = None,
        node_r = None, node_parent = None, node_user = None\<rparr>] \<and>
   head4 pt1 = head4 pt \<and> head6 pt1 = head6 pt"
  by (auto simp add: bgpstream_patricia_node_create_def Let_def)

lemma get_head_cong:
  "head4 pt' = head4 pt \<Longrightarrow> head6 pt' = head6 pt \<Longrightarrow>
   bgpstream_patricia_get_head pt' v = bgpstream_patricia_get_head pt v"
  by (simp add: bgpstream_patricia_get_head_def split: bgpstream_addr_version_t.splits)

lemma insert_child_heap:
  assumes "insert_child pt1 addr a new = Inr pt'" "heap pt1 = h @ [nd]" "new = length h"
    "a < length h"
  shows "length (heap pt') = Suc (length h)"
    "\<And>m. m < length h \<Longrightarrow> m \<noteq> a \<Longrightarrow> heap pt' ! m = h ! m"
    "node_bit (heap pt' ! a) = node_bit (h ! a)"
    "child_towards (heap pt') addr a = Some new"
    "node_bit (heap pt' ! new) = node_bit nd"
    "node_prefix (heap pt' ! new) = node_prefix nd"
    "head4 pt' = head4 pt1" "head6 pt' = head6 pt1"
  using assms
  by (auto simp add: insert_child_def Let_def nth_list_update nth_append child_towards_def
      split: if_splits)







lemma insert_atD:
  assumes "insert_at pt pfx test_addr d a = Inr (pt', n)"
  shows "(d = mask_len pfx \<and> node_bit (heap pt ! a) = mask_len pfx \<and> n = a \<and>
          (if is_glue (heap pt ! a)
           then pt' = pt\<lparr>heap := (heap pt)[a := (heap pt ! a)\<lparr>node_prefix := pfx\<rparr>]\<rparr>
           else pt' = pt)) \<or>
         (\<not> (d = mask_len pfx \<and> node_bit (heap pt ! a) = mask_len pfx) \<and>
          n = length (heap pt) \<and>
          (\<exists>pt1. bgpstream_patricia_node_create pt pfx = (pt1, n) \<and>
             (if node_bit (heap pt ! a) = d
              then insert_child pt1 (pfx_addr pfx) a n = Inr pt'
              else if mask_len pfx = d
              then insert_parent pt1 (pfx_version pfx) test_addr (mask_len pfx) a n = Inr pt'
              else insert_glue pt1 (pfx_version pfx) (pfx_addr pfx) d a n = Inr pt')))"
proof (cases "d = mask_len pfx \<and> node_bit (heap pt ! a) = mask_len pfx")
  case True
  with assms show ?thesis by (auto simp add: insert_at_def Let_def split: if_splits)
next
  case False
  obtain pt1 new where nc: "bgpstream_patricia_node_create pt pfx = (pt1, new)" by force
  from node_create_eq [OF nc] have new: "new = length (heap pt)" by simp
  from assms False nc have "n = new \<and>
             (if node_bit (heap pt ! a) = d
              then insert_child pt1 (pfx_addr pfx) a n = Inr pt'
              else if mask_len pfx = d
              then insert_parent pt1 (pfx_version pfx) test_addr (mask_len pfx) a n = Inr pt'
              else insert_glue pt1 (pfx_version pfx) (pfx_addr pfx) d a n = Inr pt')"
    by (auto simp add: insert_at_def Let_def split: if_splits sum.splits)
  with False nc new show ?thesis by auto
qed






subsection \<open>Insertion keeps the shape of the tree\<close>

lemma wf_heap_local: "wf_heap h \<longleftrightarrow> (\<forall>m<length h. local_ok h m)"
  unfolding wf_heap_def local_ok_def by blast

lemma wf_heap_graft:
  assumes w: "wf_heap h" and len: "length h \<le> length h'"
    and same: "\<And>m. m < length h \<Longrightarrow> m \<notin> X \<Longrightarrow> h' ! m = h ! m"
    and loc: "\<And>m. m < length h' \<Longrightarrow> m \<in> X \<or> length h \<le> m \<Longrightarrow> local_ok h' m"
    and bk: "\<And>m c. m < length h \<Longrightarrow> m \<notin> X \<Longrightarrow> c \<in> X \<Longrightarrow>
                 node_l (h ! m) = Some c \<or> node_r (h ! m) = Some c \<Longrightarrow>
                 node_parent (h' ! c) = Some m \<and> node_bit (h ! m) < node_bit (h' ! c)"
  shows "wf_heap h'"
  unfolding wf_heap_local
proof (intro allI impI)
  fix m assume m: "m < length h'"
  show "local_ok h' m"
  proof (cases "m \<in> X \<or> length h \<le> m")
    case True
    with m show ?thesis by (rule loc)
  next
    case False
    then have mh: "m < length h" and mx: "m \<notin> X" by simp_all
    from same [OF mh mx] have e: "h' ! m = h ! m" .
    from w mh have lo: "local_ok h m" by (simp add: wf_heap_local)
    have "c < length h' \<and> node_parent (h' ! c) = Some m \<and> node_bit (h' ! m) < node_bit (h' ! c)"
      if c: "node_l (h ! m) = Some c \<or> node_r (h ! m) = Some c" for c
    proof -
      from lo c have old: "c < length h" "node_parent (h ! c) = Some m"
        "node_bit (h ! m) < node_bit (h ! c)" unfolding local_ok_def by blast+
      show ?thesis
      proof (cases "c \<in> X")
        case True
        from bk [OF mh mx True c] old(1) len show ?thesis by (simp add: e)
      next
        case False
        from same [OF old(1) False] old len show ?thesis by (simp add: e)
      qed
    qed
    with lo show ?thesis unfolding local_ok_def e by blast
  qed
qed

lemma attach_above_parent_eq:
  assumes "attach_above pt0 v a upper = Inr pt'" "node_parent (heap pt0 ! a) = Some g" "g \<noteq> a"
  shows "heap pt' = (heap pt0)
           [g := (if node_r (heap pt0 ! g) = Some a then (heap pt0 ! g)\<lparr>node_r := Some upper\<rparr>
                  else (heap pt0 ! g)\<lparr>node_l := Some upper\<rparr>),
            a := (heap pt0 ! a)\<lparr>node_parent := Some upper\<rparr>]"
    "head4 pt' = head4 pt0" "head6 pt' = head6 pt0"
  using assms
  by (auto simp add: attach_above_def Let_def replace_child_def)

lemma attach_above_head_eq:
  assumes "attach_above pt0 v a upper = Inr pt'" "node_parent (heap pt0 ! a) = None"
  shows "heap pt' = (heap pt0)[a := (heap pt0 ! a)\<lparr>node_parent := Some upper\<rparr>]"
    "bgpstream_patricia_get_head pt0 v = Some a"
    "pt' = (bgpstream_patricia_set_head pt0 v (Some upper))\<lparr>heap := heap pt'\<rparr>"
  using assms
  by (cases v; auto simp add: attach_above_def Let_def bgpstream_patricia_set_head_def
      split: if_splits)+

lemma attach_wf:
  assumes w: "wf_heap h"
    and h0: "length h \<le> length h0" "\<forall>m<length h. h0 ! m = h ! m"
    and a: "a < length h"
    and up: "length h \<le> upper" "upper < length h0"
    and ubit: "node_bit (h0 ! upper) < node_bit (h ! a)"
    and upar: "node_parent (h0 ! upper) = node_parent (h ! a)"
    and news: "\<And>m. length h \<le> m \<Longrightarrow> m < length h0 \<Longrightarrow> new_ok h0 (length h) a upper m"
    and par: "node_parent (h ! a) = None \<and> h' = h0[a := (h0 ! a)\<lparr>node_parent := Some upper\<rparr>] \<or>
       (\<exists>g. node_parent (h ! a) = Some g \<and> g < length h \<and>
            node_bit (h ! g) < node_bit (h0 ! upper) \<and>
            (node_l (h ! g) = Some a \<or> node_r (h ! g) = Some a) \<and>
            h' = h0[g := (if node_r (h0 ! g) = Some a then (h0 ! g)\<lparr>node_r := Some upper\<rparr>
                          else (h0 ! g)\<lparr>node_l := Some upper\<rparr>),
                    a := (h0 ! a)\<lparr>node_parent := Some upper\<rparr>])"
  shows "wf_heap h'"
proof -
  from w a have la: "local_ok h a" by (simp add: wf_heap_local)
  from h0 a have a0: "h0 ! a = h ! a" by simp
  from up a have ua: "upper \<noteq> a" by simp
  have l': "length h' = length h0" using par by auto
  have a': "h' ! a = (h ! a)\<lparr>node_parent := Some upper\<rparr>"
    using par a h0(1) a0 by auto
  have kids_a: "c < length h" "node_parent (h ! c) = Some a" "node_bit (h ! a) < node_bit (h ! c)"
    if "node_l (h ! a) = Some c \<or> node_r (h ! a) = Some c" for c
    using la that unfolding local_ok_def by blast+
  consider
      (none) "node_parent (h ! a) = None" "h' = h0[a := (h0 ! a)\<lparr>node_parent := Some upper\<rparr>]"
    | (some) g where "node_parent (h ! a) = Some g" "g < length h"
        "node_bit (h ! g) < node_bit (h0 ! upper)"
        "node_l (h ! g) = Some a \<or> node_r (h ! g) = Some a"
        "h' = h0[g := (if node_r (h0 ! g) = Some a then (h0 ! g)\<lparr>node_r := Some upper\<rparr>
                          else (h0 ! g)\<lparr>node_l := Some upper\<rparr>),
                    a := (h0 ! a)\<lparr>node_parent := Some upper\<rparr>]"
  proof (rule disjE [OF par])
    assume "node_parent (h ! a) = None \<and> h' = h0[a := (h0 ! a)\<lparr>node_parent := Some upper\<rparr>]"
    then show ?thesis by (intro none) simp_all
  next
    assume "\<exists>g. node_parent (h ! a) = Some g \<and> g < length h \<and>
            node_bit (h ! g) < node_bit (h0 ! upper) \<and>
            (node_l (h ! g) = Some a \<or> node_r (h ! g) = Some a) \<and>
            h' = h0[g := (if node_r (h0 ! g) = Some a then (h0 ! g)\<lparr>node_r := Some upper\<rparr>
                          else (h0 ! g)\<lparr>node_l := Some upper\<rparr>),
                    a := (h0 ! a)\<lparr>node_parent := Some upper\<rparr>]"
    then obtain g where "node_parent (h ! a) = Some g" "g < length h"
        "node_bit (h ! g) < node_bit (h0 ! upper)"
        "node_l (h ! g) = Some a \<or> node_r (h ! g) = Some a"
        "h' = h0[g := (if node_r (h0 ! g) = Some a then (h0 ! g)\<lparr>node_r := Some upper\<rparr>
                          else (h0 ! g)\<lparr>node_l := Some upper\<rparr>),
                    a := (h0 ! a)\<lparr>node_parent := Some upper\<rparr>]"
      by (elim exE conjE)
    then show ?thesis by (rule some)
  qed
  then show ?thesis
  proof cases
    case none
    note pn = none(1) and h' = none(2)
    have other: "h' ! m = h0 ! m" if "m \<noteq> a" for m using that by (simp add: h')
    show ?thesis
    proof (rule wf_heap_graft [OF w, where X = "{a}"])
      from h0(1) show "length h \<le> length h'" by (simp add: l')
      show "h' ! m = h ! m" if "m < length h" "m \<notin> {a}" for m
        using that h0(2) by (simp add: other)
      show "node_parent (h' ! c) = Some m \<and> node_bit (h ! m) < node_bit (h' ! c)"
        if "m < length h" "m \<notin> {a}" "c \<in> {a}"
          "node_l (h ! m) = Some c \<or> node_r (h ! m) = Some c" for m c
      proof -
        from w that(1,4) have "node_parent (h ! c) = Some m" unfolding wf_heap_def by blast
        with that(3) pn show ?thesis by simp
      qed
      show "local_ok h' m" if m: "m < length h'" "m \<in> {a} \<or> length h \<le> m" for m
      proof (cases "m = a")
        case True
        have "c < length h' \<and> node_parent (h' ! c) = Some a \<and> node_bit (h' ! a) < node_bit (h' ! c)"
          if "node_l (h ! a) = Some c \<or> node_r (h ! a) = Some c" for c
        proof -
          note k = kids_a [OF that]
          from k(3) have "c \<noteq> a" by auto
          with k h0 show ?thesis by (simp add: other a' l')
        qed
        with la show ?thesis unfolding True local_ok_def a' by auto
      next
        case False
        with m have mn: "length h \<le> m" "m < length h0" by (simp_all add: l')
        from news [OF mn] have n: "new_ok h0 (length h) a upper m" .
        have "c < length h' \<and> node_parent (h' ! c) = Some m \<and> node_bit (h' ! m) < node_bit (h' ! c)"
          if c: "node_l (h0 ! m) = Some c \<or> node_r (h0 ! m) = Some c" for c
        proof -
          from n c consider "c = a" "m = upper"
            | "length h \<le> c" "c < length h0" "node_parent (h0 ! c) = Some m"
              "node_bit (h0 ! m) < node_bit (h0 ! c)"
            unfolding new_ok_def by blast
          then show ?thesis
          proof cases
            case 1
            with a h0(1) ubit ua show ?thesis by (simp add: a' l' other)
          next
            case 2
            from 2(1) a have "c \<noteq> a" by simp
            with 2 False show ?thesis by (simp add: other l')
          qed
        qed
        with n False show ?thesis unfolding local_ok_def new_ok_def by (simp add: other)
      qed
    qed
  next
    case (some g)
    note pg = some(1) and g = some(2) and gbit = some(3) and gc = some(4) and h' = some(5)
    from w g have lg: "local_ok h g" by (simp add: wf_heap_local)
    from h0 g have g0: "h0 ! g = h ! g" by simp
    from gbit ubit have "node_bit (h ! g) < node_bit (h ! a)" by simp
    then have ga: "g \<noteq> a" by auto
    from up g have ug: "upper \<noteq> g" by simp
    have other: "h' ! m = h0 ! m" if "m \<noteq> a" "m \<noteq> g" for m using that by (simp add: h')
    have g': "h' ! g = (if node_r (h ! g) = Some a then (h ! g)\<lparr>node_r := Some upper\<rparr>
                          else (h ! g)\<lparr>node_l := Some upper\<rparr>)"
      using ga g h0(1) by (simp add: h' g0)
    have kids_g: "c < length h" "node_parent (h ! c) = Some g" "node_bit (h ! g) < node_bit (h ! c)"
      if "node_l (h ! g) = Some c \<or> node_r (h ! g) = Some c" for c
      using lg that unfolding local_ok_def by blast+
    have sides_g: "node_l (h ! g) = Some c \<longrightarrow> node_r (h ! g) \<noteq> Some c" for c
      using lg unfolding local_ok_def by blast
    show ?thesis
    proof (rule wf_heap_graft [OF w, where X = "{a, g}"])
      from h0(1) show "length h \<le> length h'" by (simp add: l')
      show "h' ! m = h ! m" if "m < length h" "m \<notin> {a, g}" for m
        using that h0(2) by (simp add: other)
      show "node_parent (h' ! c) = Some m \<and> node_bit (h ! m) < node_bit (h' ! c)"
        if "m < length h" "m \<notin> {a, g}" "c \<in> {a, g}"
          "node_l (h ! m) = Some c \<or> node_r (h ! m) = Some c" for m c
      proof -
        from w that(1,4) have old: "node_parent (h ! c) = Some m" "node_bit (h ! m) < node_bit (h ! c)"
          unfolding wf_heap_def by blast+
        from old(1) pg that(2) have "c \<noteq> a" by auto
        with that(3) have "c = g" by simp
        with old show ?thesis by (auto simp add: g')
      qed
      show "local_ok h' m" if m: "m < length h'" "m \<in> {a, g} \<or> length h \<le> m" for m
      proof -
        consider "m = a" | "m = g" | "m \<noteq> a" "m \<noteq> g" by blast
        then show ?thesis
        proof cases
          case 1
          have "c < length h' \<and> node_parent (h' ! c) = Some a \<and> node_bit (h' ! a) < node_bit (h' ! c)"
            if "node_l (h ! a) = Some c \<or> node_r (h ! a) = Some c" for c
          proof -
            note k = kids_a [OF that]
            from k(3) gbit ubit have "c \<noteq> a" "c \<noteq> g" by auto
            with k h0 show ?thesis by (simp add: other a' l')
          qed
          with la show ?thesis unfolding 1 local_ok_def a' by auto
        next
          case 2
          have up_ok: "upper < length h' \<and> node_parent (h' ! upper) = Some g \<and>
                node_bit (h ! g) < node_bit (h' ! upper)"
            using up ua ug upar pg gbit by (simp add: other l')
          have old_ok: "c < length h' \<and> node_parent (h' ! c) = Some g \<and>
                node_bit (h ! g) < node_bit (h' ! c)"
            if "node_l (h ! g) = Some c \<or> node_r (h ! g) = Some c" "c \<noteq> a" for c
          proof -
            note k = kids_g [OF that(1)]
            from k(3) have "c \<noteq> g" by auto
            with k that(2) h0 show ?thesis by (simp add: other l')
          qed
          have len_g: "length (pfx_addr (node_prefix (h ! g))) = 16"
            using lg unfolding local_ok_def by blast
          show ?thesis
          proof (cases "node_r (h ! g) = Some a")
            case True
            with sides_g [of a] have nl: "node_l (h ! g) \<noteq> Some a" by auto
            from True have e: "h' ! g = (h ! g)\<lparr>node_r := Some upper\<rparr>" by (simp add: g')
            have "upper \<noteq> c" if "node_l (h ! g) = Some c" for c
              using kids_g(1) [of c] that up(1) by auto
            with up_ok old_ok nl len_g show ?thesis
              unfolding 2 local_ok_def e by auto
          next
            case False
            with gc have la': "node_l (h ! g) = Some a" by simp
            from False have e: "h' ! g = (h ! g)\<lparr>node_l := Some upper\<rparr>" by (simp add: g')
            have "upper \<noteq> c" if "node_r (h ! g) = Some c" for c
              using kids_g(1) [of c] that up(1) by auto
            with up_ok old_ok False len_g show ?thesis
              unfolding 2 local_ok_def e by auto
          qed
        next
          case 3
          with m have mn: "length h \<le> m" "m < length h0" by (simp_all add: l')
          from news [OF mn] have n: "new_ok h0 (length h) a upper m" .
          have "c < length h' \<and> node_parent (h' ! c) = Some m \<and> node_bit (h' ! m) < node_bit (h' ! c)"
            if c: "node_l (h0 ! m) = Some c \<or> node_r (h0 ! m) = Some c" for c
          proof -
            from n c consider "c = a" "m = upper"
              | "length h \<le> c" "c < length h0" "node_parent (h0 ! c) = Some m"
                "node_bit (h0 ! m) < node_bit (h0 ! c)"
              unfolding new_ok_def by blast
            then show ?thesis
            proof cases
              case 1
              with a h0(1) ubit ua ug show ?thesis by (simp add: a' l' other)
            next
              case 2
              from 2(1) a g have "c \<noteq> a" "c \<noteq> g" by simp_all
              with 2 3 show ?thesis by (simp add: other l')
            qed
          qed
          with n 3 show ?thesis unfolding local_ok_def new_ok_def by (simp add: other)
        qed
      qed
    qed
  qed
qed

lemma insert_position:
  assumes wf: "wf_tree pt"
    and hd: "bgpstream_patricia_get_head pt v = Some root"
    and sd: "insert_descend (heap pt) addr bitlen root = Some s"
    and fdb: "find_differ_bit addr test_addr
         (if node_bit (heap pt ! s) < bitlen then node_bit (heap pt ! s) else bitlen) = Inr d"
    and asc: "insert_ascend (heap pt) d s = Some a"
  shows "a < length (heap pt)" "d \<le> bitlen" "d \<le> node_bit (heap pt ! a)"
    "node_parent (heap pt ! a) = None \<or>
     (\<exists>g. node_parent (heap pt ! a) = Some g \<and> g < length (heap pt) \<and>
          node_bit (heap pt ! g) < d \<and>
          (node_l (heap pt ! g) = Some a \<or> node_r (heap pt ! g) = Some a))"
proof -
  define h where "h = heap pt"
  from wf have w: "wf_heap h" unfolding wf_tree_def h_def by blast
  from get_head_root [OF wf hd] have r: "root < length h" "node_parent (h ! root) = None"
    by (simp_all add: h_def)
  from r(1) have "dpath h addr (keep_going bitlen) root root" by (rule dpath_root)
  with insert_descend_path [OF sd [folded h_def], of root] w
  have ps: "dpath h addr (keep_going bitlen) root s" by simp
  from insert_ascend_path [OF asc [folded h_def], of root addr "keep_going bitlen"] w r(2) ps
  have pa: "dpath h addr (keep_going bitlen) root a"
    and disj: "a = s \<or> (keep_going bitlen (h ! a) \<and> child_towards h addr a \<noteq> None \<and>
                d \<le> node_bit (h ! a))"
    and par: "node_parent (h ! a) = None \<or>
              (\<exists>g. node_parent (h ! a) = Some g \<and> g < length h \<and> node_bit (h ! g) < d)"
    by simp_all
  from pa show "a < length (heap pt)" unfolding h_def by (rule dpath_length)
  from find_differ_bit_props [of addr test_addr
      "if node_bit (h ! s) < bitlen then node_bit (h ! s) else bitlen"] fdb [folded h_def]
  have dc: "d \<le> (if node_bit (h ! s) < bitlen then node_bit (h ! s) else bitlen)"
    by simp
  from dc show "d \<le> bitlen" by (simp split: if_splits)
  from dc have "d \<le> node_bit (h ! s)" by (simp split: if_splits)
  with disj show "d \<le> node_bit (heap pt ! a)" unfolding h_def by auto
  show "node_parent (heap pt ! a) = None \<or>
     (\<exists>g. node_parent (heap pt ! a) = Some g \<and> g < length (heap pt) \<and>
          node_bit (heap pt ! g) < d \<and>
          (node_l (heap pt ! g) = Some a \<or> node_r (heap pt ! g) = Some a))"
  proof (rule disjE [OF par])
    assume "node_parent (h ! a) = None"
    then show ?thesis by (simp add: h_def)
  next
    assume "\<exists>g. node_parent (h ! a) = Some g \<and> g < length h \<and> node_bit (h ! g) < d"
    then obtain g where g: "node_parent (h ! a) = Some g" "g < length h" "node_bit (h ! g) < d"
      by blast
    from dpath_parent [OF w pa g(1) r(2)] have "child_towards h addr g = Some a" by simp
    then have "node_l (h ! g) = Some a \<or> node_r (h ! g) = Some a"
      by (simp add: child_towards_def split: if_splits)
    with g show ?thesis unfolding h_def by blast
  qed
qed

lemma insert_child_eq:
  assumes "insert_child pt1 addr a new = Inr pt'" "heap pt1 = h @ [nd]" "new = length h"
    "a < length h"
  shows "\<exists>A'. heap pt' = (h @ [nd\<lparr>node_parent := Some a\<rparr>])[a := A'] \<and>
     node_bit A' = node_bit (h ! a) \<and> node_parent A' = node_parent (h ! a) \<and>
     node_prefix A' = node_prefix (h ! a) \<and>
     ((node_l A' = Some new \<and> node_r A' = node_r (h ! a) \<and> node_l (h ! a) = None) \<or>
      (node_r A' = Some new \<and> node_l A' = node_l (h ! a) \<and> node_r (h ! a) = None))"
  using assms
  by (auto simp add: insert_child_def Let_def nth_list_update nth_append list_update_append
      split: if_splits)

lemma insert_parent_eq2:
  assumes "heap pt1 = h @ [nd]" "new = length h" "a < length h" "node_l nd = None"
    "node_r nd = None"
  shows "\<exists>h2. insert_parent pt1 v test_addr bitlen a new = attach_above (pt1\<lparr>heap := h2\<rparr>) v a new \<and>
     length h2 = Suc (length h) \<and> (\<forall>m<length h. h2 ! m = h ! m) \<and>
     node_bit (h2 ! new) = node_bit nd \<and> node_prefix (h2 ! new) = node_prefix nd \<and>
     node_parent (h2 ! new) = node_parent (h ! a) \<and>
     ((node_l (h2 ! new) = Some a \<and> node_r (h2 ! new) = None) \<or>
      (node_l (h2 ! new) = None \<and> node_r (h2 ! new) = Some a))"
  using assms
  by (auto simp add: insert_parent_def Let_def nth_list_update nth_append)

lemma insert_glue_eq2:
  assumes "heap pt1 = h @ [nd]" "new = length h" "a < length h"
  shows "\<exists>h4. insert_glue pt1 v addr d a new =
            attach_above (pt1\<lparr>heap := h4\<rparr>) v a (Suc (length h)) \<and>
     length h4 = Suc (Suc (length h)) \<and> (\<forall>m<length h. h4 ! m = h ! m) \<and>
     h4 ! new = nd\<lparr>node_parent := Some (Suc (length h))\<rparr> \<and>
     node_bit (h4 ! Suc (length h)) = d \<and>
     node_parent (h4 ! Suc (length h)) = node_parent (h ! a) \<and>
     length (pfx_addr (node_prefix (h4 ! Suc (length h)))) = 16 \<and>
     ((node_l (h4 ! Suc (length h)) = Some new \<and> node_r (h4 ! Suc (length h)) = Some a) \<or>
      (node_l (h4 ! Suc (length h)) = Some a \<and> node_r (h4 ! Suc (length h)) = Some new))"
  using assms
  by (auto simp add: insert_glue_def bgpstream_patricia_gluenode_create_def Let_def
      nth_list_update nth_append)

lemma set_head_heads:
  "v \<noteq> BGPSTREAM_ADDR_VERSION_UNKNOWN \<Longrightarrow>
   head4 (bgpstream_patricia_set_head pt v x) = (if v = BGPSTREAM_ADDR_VERSION_IPV4 then x else head4 pt) \<and>
   head6 (bgpstream_patricia_set_head pt v x) = (if v = BGPSTREAM_ADDR_VERSION_IPV6 then x else head6 pt) \<and>
   heap (bgpstream_patricia_set_head pt v x) = heap pt"
  by (cases v) (simp_all add: bgpstream_patricia_set_head_def)

lemma get_head_eq:
  "bgpstream_patricia_get_head pt v =
     (if v = BGPSTREAM_ADDR_VERSION_IPV4 then head4 pt
      else if v = BGPSTREAM_ADDR_VERSION_IPV6 then head6 pt else None)"
  by (cases v) (simp_all add: bgpstream_patricia_get_head_def)

lemma wf_tree_heads:
  assumes "wf_tree pt"
  shows "\<And>x. head4 pt = Some x \<or> head6 pt = Some x \<Longrightarrow>
           x < length (heap pt) \<and> node_parent (heap pt ! x) = None"
    "\<And>x. head4 pt = Some x \<Longrightarrow> head6 pt \<noteq> Some x"
  using assms unfolding wf_tree_def by blast+

lemma wf_tree_new_head:
  assumes wf: "wf_tree pt" and w': "wf_heap h'"
    and v: "v \<noteq> BGPSTREAM_ADDR_VERSION_UNKNOWN"
    and h4: "head4 pt' = (if v = BGPSTREAM_ADDR_VERSION_IPV4 then Some u else head4 pt)"
    and h6: "head6 pt' = (if v = BGPSTREAM_ADDR_VERSION_IPV6 then Some u else head6 pt)"
    and hp: "heap pt' = h'"
    and u: "length (heap pt) \<le> u" "u < length h'" "node_parent (h' ! u) = None"
    and keep: "\<And>x. x < length (heap pt) \<Longrightarrow> bgpstream_patricia_get_head pt v \<noteq> Some x \<Longrightarrow>
                 node_parent (h' ! x) = node_parent (heap pt ! x)"
  shows "wf_tree pt'"
proof -
  note hs = wf_tree_heads [OF wf]
  have old: "x < length h' \<and> node_parent (h' ! x) = None \<and> x \<noteq> u"
    if "head4 pt = Some x \<or> head6 pt = Some x" "bgpstream_patricia_get_head pt v \<noteq> Some x" for x
  proof -
    from hs(1) [OF that(1)] have x: "x < length (heap pt)" "node_parent (heap pt ! x) = None"
      by simp_all
    from keep [OF x(1) that(2)] x u show ?thesis by simp
  qed
  have "x < length h' \<and> node_parent (h' ! x) = None"
    if "head4 pt' = Some x \<or> head6 pt' = Some x" for x
  proof (cases "x = u")
    case True
    with u show ?thesis by simp
  next
    case False
    with that v have "(head4 pt = Some x \<or> head6 pt = Some x) \<and>
        bgpstream_patricia_get_head pt v \<noteq> Some x"
      using hs(2) [of x] by (cases v) (auto simp add: h4 h6 get_head_eq split: if_splits)
    with old show ?thesis by blast
  qed
  moreover have "head6 pt' \<noteq> Some x" if "head4 pt' = Some x" for x
  proof (cases v)
    case BGPSTREAM_ADDR_VERSION_UNKNOWN
    with v show ?thesis by simp
  next
    case BGPSTREAM_ADDR_VERSION_IPV4
    with that have "x = u" by (simp add: h4)
    moreover from hs(1) [of u] u(1) have "head6 pt \<noteq> Some u" by auto
    ultimately show ?thesis using BGPSTREAM_ADDR_VERSION_IPV4 by (simp add: h6)
  next
    case BGPSTREAM_ADDR_VERSION_IPV6
    with that have "head4 pt = Some x" by (simp add: h4)
    with hs(1) [of x] u(1) have "x \<noteq> u" by auto
    with BGPSTREAM_ADDR_VERSION_IPV6 show ?thesis by (simp add: h6)
  qed
  ultimately show ?thesis using w' unfolding wf_tree_def hp by blast
qed

lemma wf_tree_same_heads:
  assumes wf: "wf_tree pt" and w': "wf_heap (heap pt')"
    and hs: "head4 pt' = head4 pt" "head6 pt' = head6 pt"
    and len: "length (heap pt) \<le> length (heap pt')"
    and keep: "\<And>x. x < length (heap pt) \<Longrightarrow> node_parent (heap pt ! x) = None \<Longrightarrow>
                 node_parent (heap pt' ! x) = None"
  shows "wf_tree pt'"
proof -
  note o = wf_tree_heads [OF wf]
  have "x < length (heap pt') \<and> node_parent (heap pt' ! x) = None"
    if "head4 pt' = Some x \<or> head6 pt' = Some x" for x
  proof -
    from that have "head4 pt = Some x \<or> head6 pt = Some x" by (simp add: hs)
    from o(1) [OF this] keep [of x] len show ?thesis by simp
  qed
  moreover have "head6 pt' \<noteq> Some x" if "head4 pt' = Some x" for x
    using that o(2) [of x] by (simp add: hs)
  ultimately show ?thesis using w' unfolding wf_tree_def by blast
qed

lemma attach_wf_tree:
  assumes wf: "wf_tree pt"
    and hs0: "head4 pt0 = head4 pt" "head6 pt0 = head6 pt"
    and h0: "length (heap pt) \<le> length (heap pt0)" "\<forall>m<length (heap pt). heap pt0 ! m = heap pt ! m"
    and a: "a < length (heap pt)"
    and up: "length (heap pt) \<le> upper" "upper < length (heap pt0)"
    and ubit: "node_bit (heap pt0 ! upper) < node_bit (heap pt ! a)"
    and upar: "node_parent (heap pt0 ! upper) = node_parent (heap pt ! a)"
    and news: "\<And>m. length (heap pt) \<le> m \<Longrightarrow> m < length (heap pt0) \<Longrightarrow>
                 new_ok (heap pt0) (length (heap pt)) a upper m"
    and par: "node_parent (heap pt ! a) = None \<or>
        (\<exists>g. node_parent (heap pt ! a) = Some g \<and> g < length (heap pt) \<and>
             node_bit (heap pt ! g) < node_bit (heap pt0 ! upper) \<and>
             (node_l (heap pt ! g) = Some a \<or> node_r (heap pt ! g) = Some a))"
    and ab: "attach_above pt0 v a upper = Inr pt'"
    and vk: "v \<noteq> BGPSTREAM_ADDR_VERSION_UNKNOWN"
  shows "wf_tree pt'"
proof -
  define h where "h = heap pt"
  define h0' where "h0' = heap pt0"
  from wf have w: "wf_heap h" unfolding wf_tree_def h_def by blast
  from h0 a have a0: "heap pt0 ! a = h ! a" by (simp add: h_def)
  from up a have ua: "upper \<noteq> a" by simp
  show ?thesis
  proof (rule disjE [OF par])
    assume pn: "node_parent (heap pt ! a) = None"
    then have "node_parent (heap pt0 ! a) = None" by (simp add: a0 h_def)
    note e = attach_above_head_eq [OF ab this]
    have w': "wf_heap (heap pt')"
      by (rule attach_wf [OF w h0 [folded h_def] a [folded h_def] up [folded h_def]
            ubit [folded h_def] upar [folded h_def] news [folded h_def]])
         (use pn e(1) in \<open>simp_all add: h_def\<close>)
    note sh = set_head_heads [OF vk, of pt0 "Some upper"]
    from e(3) sh have hs: "head4 pt' = (if v = BGPSTREAM_ADDR_VERSION_IPV4 then Some upper else head4 pt)"
      "head6 pt' = (if v = BGPSTREAM_ADDR_VERSION_IPV6 then Some upper else head6 pt)"
      by (metis (no_types) bgpstream_patricia_tree_t.select_convs(1) bgpstream_patricia_tree_t.surjective
          bgpstream_patricia_tree_t.update_convs(5) hs0(1),
          metis (no_types) bgpstream_patricia_tree_t.select_convs(2) bgpstream_patricia_tree_t.surjective
          bgpstream_patricia_tree_t.update_convs(5) hs0(2))
    from get_head_cong [OF hs0, of v] e(2)
    have hda: "bgpstream_patricia_get_head pt v = Some a" by simp
    show ?thesis
    proof (rule wf_tree_new_head [OF wf w' vk hs refl up(1)])
      from up(2) show "upper < length (heap pt')" by (simp add: e(1))
      from ua upar pn show "node_parent (heap pt' ! upper) = None" by (simp add: e(1))
      show "node_parent (heap pt' ! x) = node_parent (heap pt ! x)"
        if "x < length (heap pt)" "bgpstream_patricia_get_head pt v \<noteq> Some x" for x
      proof -
        from that(2) hda have "x \<noteq> a" by auto
        with that(1) h0(2) show ?thesis by (simp add: e(1))
      qed
    qed
  next
    assume "\<exists>g. node_parent (heap pt ! a) = Some g \<and> g < length (heap pt) \<and>
             node_bit (heap pt ! g) < node_bit (heap pt0 ! upper) \<and>
             (node_l (heap pt ! g) = Some a \<or> node_r (heap pt ! g) = Some a)"
    then obtain g where g: "node_parent (heap pt ! a) = Some g" "g < length (heap pt)"
      "node_bit (heap pt ! g) < node_bit (heap pt0 ! upper)"
      "node_l (heap pt ! g) = Some a \<or> node_r (heap pt ! g) = Some a"
      by (elim exE conjE)
    from g(3) ubit have "node_bit (heap pt ! g) < node_bit (heap pt ! a)" by simp
    then have ga: "g \<noteq> a" by auto
    from g(1) have "node_parent (heap pt0 ! a) = Some g" by (simp add: a0 h_def)
    note e = attach_above_parent_eq [OF ab this ga]
    have w': "wf_heap (heap pt')"
      by (rule attach_wf [OF w h0 [folded h_def] a [folded h_def] up [folded h_def]
            ubit [folded h_def] upar [folded h_def] news [folded h_def]])
         (use g e(1) in \<open>auto simp add: h_def\<close>)
    show ?thesis
    proof (rule wf_tree_same_heads [OF wf w'])
      show "head4 pt' = head4 pt" "head6 pt' = head6 pt" by (simp_all add: e hs0)
      from h0(1) show "length (heap pt) \<le> length (heap pt')" by (simp add: e(1))
      show "node_parent (heap pt' ! x) = None"
        if "x < length (heap pt)" "node_parent (heap pt ! x) = None" for x
      proof -
        from that(2) g(1) have xa: "x \<noteq> a" by auto
        from that(1) h0(2) have x0: "heap pt0 ! x = heap pt ! x" by simp
        show ?thesis
        proof (cases "x = g")
          case True
          with xa that g(2) h0 show ?thesis by (simp add: e(1) x0 [unfolded True])
        next
          case False
          with xa that show ?thesis by (simp add: e(1) x0)
        qed
      qed
    qed
  qed
qed

lemma wf_tree_create: "wf_tree bgpstream_patricia_tree_create"
  by (simp add: wf_tree_def wf_heap_def bgpstream_patricia_tree_create_def)

lemma insert_wf:
  assumes wf: "wf_tree pt" and len: "length (pfx_addr pfx) = 16"
    and ins: "bgpstream_patricia_tree_insert pt pfx = Some (Inr (pt', n))"
  shows "wf_tree pt'"
proof -
  note ok = insert_okD [OF ins]
  define h where "h = heap pt"
  define addr where "addr = pfx_addr pfx"
  define bitlen where "bitlen = mask_len pfx"
  define v where "v = pfx_version pfx"
  define nd where "nd = \<lparr>node_bit = mask_len pfx, node_prefix = pfx, node_l = None,
        node_r = None, node_parent = None, node_user = None\<rparr>"
  from wf have w: "wf_heap h" unfolding wf_tree_def h_def by blast
  from ok(2) have vk: "v \<noteq> BGPSTREAM_ADDR_VERSION_UNKNOWN" by (simp add: v_def)
  have nd: "node_bit nd = bitlen" "node_prefix nd = pfx" "node_l nd = None" "node_r nd = None"
    "node_parent nd = None"
    by (simp_all add: nd_def bitlen_def)
  show ?thesis
  proof (cases "bgpstream_patricia_get_head pt (pfx_version pfx)")
    case None
    obtain pt1 new where nc: "bgpstream_patricia_node_create pt pfx = (pt1, new)" by force
    from node_create_eq [OF nc] have pt1: "new = length h" "heap pt1 = h @ [nd]"
      "head4 pt1 = head4 pt" "head6 pt1 = head6 pt"
      by (simp_all add: h_def nd_def)
    from ins ok None nc have pt': "pt' = bgpstream_patricia_set_head pt1 v (Some new)"
      by (auto simp add: bgpstream_patricia_tree_insert_def v_def)
    note sh = set_head_heads [OF vk, of pt1 "Some new"]
    have w': "wf_heap (h @ [nd])"
    proof (rule wf_heap_graft [OF w, where X = "{}"])
      show "length h \<le> length (h @ [nd])" by simp
      show "(h @ [nd]) ! m = h ! m" if "m < length h" for m using that by (simp add: nth_append)
      show "local_ok (h @ [nd]) m" if "m < length (h @ [nd])" "m \<in> {} \<or> length h \<le> m" for m
      proof -
        from that have "m = length h" by simp
        then show ?thesis by (simp add: local_ok_def nd len)
      qed
    qed simp
    show ?thesis
    proof (rule wf_tree_new_head [OF wf w' vk, where u = new])
      show "head4 pt' = (if v = BGPSTREAM_ADDR_VERSION_IPV4 then Some new else head4 pt)"
        "head6 pt' = (if v = BGPSTREAM_ADDR_VERSION_IPV6 then Some new else head6 pt)"
        "heap pt' = h @ [nd]"
        using sh by (simp_all add: pt' pt1)
      show "length (heap pt) \<le> new" "new < length (h @ [nd])" "node_parent ((h @ [nd]) ! new) = None"
        by (simp_all add: pt1 h_def [symmetric] nd)
      show "node_parent ((h @ [nd]) ! x) = node_parent (heap pt ! x)" if "x < length (heap pt)" for x
        using that by (simp add: nth_append h_def)
    qed
  next
    case (Some root)
    from insert_nonemptyD [OF ins Some] obtain s d a where
      sd: "insert_descend (heap pt) addr bitlen root = Some s"
      and fdb: "find_differ_bit addr (pfx_addr (node_prefix (heap pt ! s)))
         (if node_bit (heap pt ! s) < bitlen then node_bit (heap pt ! s) else bitlen) = Inr d"
      and asc: "insert_ascend (heap pt) d s = Some a"
      and at: "insert_at pt pfx (pfx_addr (node_prefix (h ! s))) d a = Inr (pt', n)"
      unfolding h_def addr_def bitlen_def by blast
    have hd: "bgpstream_patricia_get_head pt v = Some root" using Some by (simp add: v_def)
    from insert_position [OF wf hd sd fdb asc]
    have a: "a < length h" and db: "d \<le> bitlen" and da: "d \<le> node_bit (h ! a)"
      and par: "node_parent (h ! a) = None \<or>
        (\<exists>g. node_parent (h ! a) = Some g \<and> g < length h \<and> node_bit (h ! g) < d \<and>
             (node_l (h ! g) = Some a \<or> node_r (h ! g) = Some a))"
      by (simp_all add: h_def)
    from w a have la: "local_ok h a" by (simp add: wf_heap_local)
    from insert_atD [OF at]
    consider
      (exact) "pt' = pt"
    | (gluemod) "pt' = pt\<lparr>heap := h[a := (h ! a)\<lparr>node_prefix := pfx\<rparr>]\<rparr>"
    | (fresh) pt1 where "\<not> (d = bitlen \<and> node_bit (h ! a) = bitlen)" "n = length h"
        "bgpstream_patricia_node_create pt pfx = (pt1, n)"
        "if node_bit (h ! a) = d
              then insert_child pt1 addr a n = Inr pt'
              else if bitlen = d
              then insert_parent pt1 v (pfx_addr (node_prefix (h ! s))) bitlen a n = Inr pt'
              else insert_glue pt1 v addr d a n = Inr pt'"
      unfolding h_def [symmetric] addr_def [symmetric] bitlen_def [symmetric] v_def [symmetric]
      by (auto split: if_splits)
    then show ?thesis
    proof cases
      case exact
      with wf show ?thesis by simp
    next
      case gluemod
      let ?h' = "h[a := (h ! a)\<lparr>node_prefix := pfx\<rparr>]"
      have par_same: "node_parent (?h' ! x) = node_parent (h ! x)" if "x < length h" for x
        using that by (cases "x = a") simp_all
      have bit_same: "node_bit (?h' ! x) = node_bit (h ! x)" if "x < length h" for x
        using that by (cases "x = a") simp_all
      have w': "wf_heap ?h'"
      proof (rule wf_heap_graft [OF w, where X = "{a}"])
        show "length h \<le> length ?h'" by simp
        show "?h' ! m = h ! m" if "m < length h" "m \<notin> {a}" for m using that by simp
        show "node_parent (?h' ! c) = Some m \<and> node_bit (h ! m) < node_bit (?h' ! c)"
          if "m < length h" "m \<notin> {a}" "c \<in> {a}"
            "node_l (h ! m) = Some c \<or> node_r (h ! m) = Some c" for m c
        proof -
          from w that(1,4) have "node_parent (h ! c) = Some m" "node_bit (h ! m) < node_bit (h ! c)"
            unfolding wf_heap_def by blast+
          with that(3) a show ?thesis by (simp add: par_same bit_same)
        qed
        show "local_ok ?h' m" if "m < length ?h'" "m \<in> {a} \<or> length h \<le> m" for m
        proof -
          from that have m: "m = a" by simp
          have "c < length ?h' \<and> node_parent (?h' ! c) = Some a \<and>
                node_bit (?h' ! a) < node_bit (?h' ! c)"
            if "node_l (h ! a) = Some c \<or> node_r (h ! a) = Some c" for c
          proof -
            from la that have "c < length h" "node_parent (h ! c) = Some a"
              "node_bit (h ! a) < node_bit (h ! c)" unfolding local_ok_def by blast+
            with a show ?thesis by (simp add: par_same bit_same)
          qed
          with la a show ?thesis unfolding m local_ok_def by (simp add: len)
        qed
      qed
      show ?thesis
      proof (rule wf_tree_same_heads [OF wf])
        show "wf_heap (heap pt')" using w' by (simp add: gluemod)
        show "head4 pt' = head4 pt" "head6 pt' = head6 pt" by (simp_all add: gluemod)
        show "length (heap pt) \<le> length (heap pt')" by (simp add: gluemod h_def)
        show "node_parent (heap pt' ! x) = None"
          if "x < length (heap pt)" "node_parent (heap pt ! x) = None" for x
          using that par_same [of x] by (simp add: gluemod h_def)
      qed
    next
      case fresh
      from node_create_eq [OF fresh(3)] have pt1: "heap pt1 = h @ [nd]"
        "head4 pt1 = head4 pt" "head6 pt1 = head6 pt"
        by (simp_all add: h_def nd_def)
      have n: "n = length h" by (rule fresh(2))
      show ?thesis
      proof (cases "node_bit (h ! a) = d")
        case True
        with fresh(4) have ic: "insert_child pt1 addr a n = Inr pt'" by simp
        from True fresh(1) db have lt: "node_bit (h ! a) < bitlen" by auto
        note f = insert_child_heap [OF ic pt1(1) n a]
        from insert_child_eq [OF ic pt1(1) n a] obtain A' where
          h': "heap pt' = (h @ [nd\<lparr>node_parent := Some a\<rparr>])[a := A']"
          and A': "node_bit A' = node_bit (h ! a)" "node_parent A' = node_parent (h ! a)"
            "node_prefix A' = node_prefix (h ! a)"
          and kids: "(node_l A' = Some n \<and> node_r A' = node_r (h ! a) \<and> node_l (h ! a) = None) \<or>
             (node_r A' = Some n \<and> node_l A' = node_l (h ! a) \<and> node_r (h ! a) = None)"
          by blast
        have at_a: "heap pt' ! a = A'" using a by (simp add: h')
        have at_n: "heap pt' ! n = nd\<lparr>node_parent := Some a\<rparr>" using a by (simp add: h' n)
        have other: "heap pt' ! m = h ! m" if "m < length h" "m \<noteq> a" for m
          using that by (simp add: h' nth_append)
        have old_kid: "c < length (heap pt') \<and> node_parent (heap pt' ! c) = Some a \<and>
                node_bit A' < node_bit (heap pt' ! c)"
          if "node_l (h ! a) = Some c \<or> node_r (h ! a) = Some c" for c
        proof -
          from la that have k: "c < length h" "node_parent (h ! c) = Some a"
            "node_bit (h ! a) < node_bit (h ! c)" unfolding local_ok_def by blast+
          from k(3) have "c \<noteq> a" by auto
          with k show ?thesis by (simp add: other A' f(1))
        qed
        have new_kid: "n < length (heap pt') \<and> node_parent (heap pt' ! n) = Some a \<and>
                node_bit A' < node_bit (heap pt' ! n)"
        proof -
          have "n < length (heap pt')" by (simp add: f(1) n)
          moreover have "node_parent (heap pt' ! n) = Some a" by (simp add: at_n)
          moreover have "node_bit A' < node_bit (heap pt' ! n)" using lt by (simp add: at_n A' nd)
          ultimately show ?thesis by simp
        qed
        have w': "wf_heap (heap pt')"
        proof (rule wf_heap_graft [OF w, where X = "{a}"])
          show "length h \<le> length (heap pt')" by (simp add: f(1))
          show "heap pt' ! m = h ! m" if "m < length h" "m \<notin> {a}" for m
            using that by (simp add: other)
          show "node_parent (heap pt' ! c) = Some m \<and> node_bit (h ! m) < node_bit (heap pt' ! c)"
            if "m < length h" "m \<notin> {a}" "c \<in> {a}"
              "node_l (h ! m) = Some c \<or> node_r (h ! m) = Some c" for m c
          proof -
            from w that(1,4) have "node_parent (h ! c) = Some m" "node_bit (h ! m) < node_bit (h ! c)"
              unfolding wf_heap_def by blast+
            with that(3) show ?thesis by (simp add: at_a A')
          qed
          show "local_ok (heap pt') m" if "m < length (heap pt')" "m \<in> {a} \<or> length h \<le> m" for m
          proof (cases "m = a")
            case True
            from la have "length (pfx_addr (node_prefix (h ! a))) = 16"
              "\<And>c. node_l (h ! a) = Some c \<Longrightarrow> node_r (h ! a) \<noteq> Some c"
              unfolding local_ok_def by blast+
            moreover have "n \<noteq> c" if "node_l (h ! a) = Some c \<or> node_r (h ! a) = Some c" for c
            proof -
              from la that have "c < length h" unfolding local_ok_def by blast
              then show ?thesis by (simp add: n)
            qed
            then have "node_l (h ! a) \<noteq> Some n" "node_r (h ! a) \<noteq> Some n" by blast+
            ultimately show ?thesis
              using kids old_kid new_kid unfolding True local_ok_def at_a A' by auto
          next
            case False
            with that have "m = n" by (simp add: f(1) n)
            then show ?thesis by (simp add: local_ok_def at_n nd len)
          qed
        qed
        show ?thesis
        proof (rule wf_tree_same_heads [OF wf w'])
          show "head4 pt' = head4 pt" "head6 pt' = head6 pt" by (simp_all add: f(7,8) pt1)
          show "length (heap pt) \<le> length (heap pt')" by (simp add: f(1) h_def)
          show "node_parent (heap pt' ! x) = None"
            if "x < length (heap pt)" "node_parent (heap pt ! x) = None" for x
            using that other [of x] by (cases "x = a") (simp_all add: at_a A' h_def)
        qed
      next
        case False
        with da have gt: "d < node_bit (h ! a)" by simp
        from False fresh(1) db have neq: "bitlen = d \<or> d < bitlen" by auto
        have par': "node_parent (heap pt ! a) = None \<or>
          (\<exists>g. node_parent (heap pt ! a) = Some g \<and> g < length (heap pt) \<and>
             node_bit (heap pt ! g) < d \<and>
             (node_l (heap pt ! g) = Some a \<or> node_r (heap pt ! g) = Some a))"
          using par by (simp add: h_def)
        show ?thesis
        proof (cases "bitlen = d")
          case True
          with False fresh(4)
          have ip: "insert_parent pt1 v (pfx_addr (node_prefix (h ! s))) bitlen a n = Inr pt'" by simp
          from insert_parent_eq2 [OF pt1(1) n a nd(3,4), of v "pfx_addr (node_prefix (h ! s))" bitlen]
          obtain h2 where h2: "insert_parent pt1 v (pfx_addr (node_prefix (h ! s))) bitlen a n
                = attach_above (pt1\<lparr>heap := h2\<rparr>) v a n"
            "length h2 = Suc (length h)" "\<forall>m<length h. h2 ! m = h ! m"
            "node_bit (h2 ! n) = node_bit nd" "node_prefix (h2 ! n) = node_prefix nd"
            "node_parent (h2 ! n) = node_parent (h ! a)"
            "(node_l (h2 ! n) = Some a \<and> node_r (h2 ! n) = None) \<or>
             (node_l (h2 ! n) = None \<and> node_r (h2 ! n) = Some a)"
            by blast
          from ip h2(1) have ab: "attach_above (pt1\<lparr>heap := h2\<rparr>) v a n = Inr pt'" by simp
          show ?thesis
          proof (rule attach_wf_tree [OF wf _ _ _ _ _ _ _ _ _ _ _ ab vk])
            show "head4 (pt1\<lparr>heap := h2\<rparr>) = head4 pt" "head6 (pt1\<lparr>heap := h2\<rparr>) = head6 pt"
              by (simp_all add: pt1)
            show "length (heap pt) \<le> length (heap (pt1\<lparr>heap := h2\<rparr>))"
              by (simp add: h2(2) h_def)
            show "\<forall>m<length (heap pt). heap (pt1\<lparr>heap := h2\<rparr>) ! m = heap pt ! m"
              using h2(3) by (simp add: h_def)
            show "a < length (heap pt)" using a by (simp add: h_def)
            show "length (heap pt) \<le> n" "n < length (heap (pt1\<lparr>heap := h2\<rparr>))"
              by (simp_all add: n h2(2) h_def)
            show "node_bit (heap (pt1\<lparr>heap := h2\<rparr>) ! n) < node_bit (heap pt ! a)"
              using gt True by (simp add: h2(4) nd h_def)
            show "node_parent (heap (pt1\<lparr>heap := h2\<rparr>) ! n) = node_parent (heap pt ! a)"
              by (simp add: h2(6) h_def)
            show "new_ok (heap (pt1\<lparr>heap := h2\<rparr>)) (length (heap pt)) a n m"
              if "length (heap pt) \<le> m" "m < length (heap (pt1\<lparr>heap := h2\<rparr>))" for m
            proof -
              from that have "m = n" by (simp add: h2(2) n h_def)
              with h2(7) show ?thesis by (auto simp add: new_ok_def h2(5) nd len)
            qed
            show "node_parent (heap pt ! a) = None \<or>
              (\<exists>g. node_parent (heap pt ! a) = Some g \<and> g < length (heap pt) \<and>
                 node_bit (heap pt ! g) < node_bit (heap (pt1\<lparr>heap := h2\<rparr>) ! n) \<and>
                 (node_l (heap pt ! g) = Some a \<or> node_r (heap pt ! g) = Some a))"
              using par' True by (simp add: h2(4) nd)
          qed
        next
          case neq': False
          with False fresh(4) have ig: "insert_glue pt1 v addr d a n = Inr pt'" by simp
          from neq' neq have lt: "d < bitlen" by simp
          from insert_glue_eq2 [OF pt1(1) n a, of v addr d]
          obtain h4 where h4: "insert_glue pt1 v addr d a n
                = attach_above (pt1\<lparr>heap := h4\<rparr>) v a (Suc (length h))"
            "length h4 = Suc (Suc (length h))" "\<forall>m<length h. h4 ! m = h ! m"
            "h4 ! n = nd\<lparr>node_parent := Some (Suc (length h))\<rparr>"
            "node_bit (h4 ! Suc (length h)) = d"
            "node_parent (h4 ! Suc (length h)) = node_parent (h ! a)"
            "length (pfx_addr (node_prefix (h4 ! Suc (length h)))) = 16"
            "(node_l (h4 ! Suc (length h)) = Some n \<and> node_r (h4 ! Suc (length h)) = Some a) \<or>
             (node_l (h4 ! Suc (length h)) = Some a \<and> node_r (h4 ! Suc (length h)) = Some n)"
            by blast
          from ig h4(1) have ab: "attach_above (pt1\<lparr>heap := h4\<rparr>) v a (Suc (length h)) = Inr pt'"
            by simp
          show ?thesis
          proof (rule attach_wf_tree [OF wf _ _ _ _ _ _ _ _ _ _ _ ab vk])
            show "head4 (pt1\<lparr>heap := h4\<rparr>) = head4 pt" "head6 (pt1\<lparr>heap := h4\<rparr>) = head6 pt"
              by (simp_all add: pt1)
            show "length (heap pt) \<le> length (heap (pt1\<lparr>heap := h4\<rparr>))"
              by (simp add: h4(2) h_def)
            show "\<forall>m<length (heap pt). heap (pt1\<lparr>heap := h4\<rparr>) ! m = heap pt ! m"
              using h4(3) by (simp add: h_def)
            show "a < length (heap pt)" using a by (simp add: h_def)
            show "length (heap pt) \<le> Suc (length h)"
              "Suc (length h) < length (heap (pt1\<lparr>heap := h4\<rparr>))"
              by (simp_all add: h4(2) h_def)
            show "node_bit (heap (pt1\<lparr>heap := h4\<rparr>) ! Suc (length h)) < node_bit (heap pt ! a)"
              using gt by (simp add: h4(5) h_def [symmetric])
            show "node_parent (heap (pt1\<lparr>heap := h4\<rparr>) ! Suc (length h)) = node_parent (heap pt ! a)"
              by (simp add: h4(6) h_def [symmetric])
            show "new_ok (heap (pt1\<lparr>heap := h4\<rparr>)) (length (heap pt)) a (Suc (length h)) m"
              if "length (heap pt) \<le> m" "m < length (heap (pt1\<lparr>heap := h4\<rparr>))" for m
            proof -
              from that have "m = length h \<or> m = Suc (length h)"
                by (auto simp add: h4(2) h_def)
              then consider "m = n" | "m = Suc (length h)" unfolding n by blast
              then show ?thesis
              proof cases
                case 1
                then show ?thesis by (simp add: new_ok_def h4(4) nd len)
              next
                case 2
                from a have "n \<noteq> a" by (simp add: n)
                with h4(8) lt show ?thesis
                  unfolding 2 new_ok_def
                  by (auto simp add: h4(2,5,7) h4(4) [unfolded n] nd n h_def [symmetric])
              qed
            qed
            show "node_parent (heap pt ! a) = None \<or>
              (\<exists>g. node_parent (heap pt ! a) = Some g \<and> g < length (heap pt) \<and>
                 node_bit (heap pt ! g) < node_bit (heap (pt1\<lparr>heap := h4\<rparr>) ! Suc (length h)) \<and>
                 (node_l (heap pt ! g) = Some a \<or> node_r (heap pt ! g) = Some a))"
              using par' by (simp add: h4(5) h_def [symmetric])
          qed
        qed
      qed
    qed
  qed
qed

lemma built_wf: "built pt \<Longrightarrow> wf_tree pt"
  by (induction rule: built.induct) (auto intro: wf_tree_create insert_wf)




end
